theory Spec2Isabelle
  imports Complex_Main "HOL-Library.Word"
begin

section \<open>Feasibility tests for fixed-priority periodic task sets\<close>

text \<open>
  A shallow embedding of \<^verbatim>\<open>feasibility_tests.c\<close>. The C functions take the number of
  services and three arrays of \<^verbatim>\<open>unsigned int\<close> (\<^verbatim>\<open>U32_T\<close>): periods, worst-case
  execution times and deadlines, indexed in decreasing priority order.

  The arrays are lists of 32-bit words. Values read from them are handled as naturals
  below \<open>2 ^ 32\<close>; every place where the C code leaves that range is written out:
  \<^item> \<^verbatim>\<open>an += wcet[j]\<close> is unsigned addition and wraps modulo \<open>2 ^ 32\<close>;
  \<^item> \<^verbatim>\<open>anext += ceil(...) * wcet[j]\<close> adds in \<^verbatim>\<open>double\<close> and converts the sum back to
    \<^verbatim>\<open>unsigned int\<close>. The conversion is undefined when the value is \<open>2 ^ 32\<close> or more,
    infinite or not a number (C11 6.3.1.4);
  \<^item> reading an array beyond its end is undefined;
  \<^item> the counter \<^verbatim>\<open>l\<close> of the scheduling-point search is an \<^verbatim>\<open>int\<close> compared with a
    quotient of periods, and \<^verbatim>\<open>l++\<close> at \<open>2 ^ 31 - 1\<close> is undefined;
  \<^item> the loop counters \<^verbatim>\<open>i\<close>, \<^verbatim>\<open>j\<close>, \<^verbatim>\<open>k\<close> and \<^verbatim>\<open>idx\<close> are \<^verbatim>\<open>int\<close> too: they start at 0 and
    only grow, so they are naturals here, and every \<^verbatim>\<open>++\<close> at \<open>2 ^ 31 - 1\<close> is undefined
    (C11 6.5p5). In \<^verbatim>\<open>i < numServices\<close> the counter is converted to \<^verbatim>\<open>unsigned int\<close>, which
    keeps its value;
  \<^item> a division of \<^verbatim>\<open>double\<close> by zero gives an infinity or not a number (IEC 60559), and
    a comparison with not a number is false.

  An undefined behaviour is a result of its own (\<open>Inl\<close>), never a verdict.
  \<^verbatim>\<open>numServices\<close> is a \<^verbatim>\<open>U32_T\<close>, a 32-bit word.
\<close>

type_synonym u32 = "32 word"

datatype ub = OutOfBounds | ConvRange | IntOverflow

text \<open>\<^verbatim>\<open>a[j]\<close> for an array of \<^verbatim>\<open>U32_T\<close>.\<close>

definition rd :: "u32 list \<Rightarrow> nat \<Rightarrow> ub + nat" where
  "rd a j = (if j < length a then Inr (unat (a ! j)) else Inl OutOfBounds)"

text \<open>
  \<^verbatim>\<open>ceil((double)a / p)\<close> for \<open>a < 2 ^ 32\<close> and \<open>0 < p < 2 ^ 32\<close>. Both operands are exact
  in binary64, and the correctly rounded quotient of two such integers is an integer only
  when the exact quotient is one (a quotient that is not an integer is at least \<open>1 / p\<close>
  away from the next integer, far more than half a unit in the last place), so the C
  expression is the exact ceiling. \<^verbatim>\<open>floor((double)a / p)\<close> is \<open>a div p\<close> likewise.
\<close>

definition ceil_div :: "nat \<Rightarrow> nat \<Rightarrow> nat" where
  "ceil_div a p = (a + p - 1) div p"

text \<open>
  \<^verbatim>\<open>x += d\<close> for \<^verbatim>\<open>U32_T x\<close> and a \<^verbatim>\<open>double\<close> \<open>d\<close> that is the product of two naturals
  below \<open>2 ^ 32\<close>: the sum is computed in \<^verbatim>\<open>double\<close> and converted to \<^verbatim>\<open>unsigned int\<close>.
  When the exact sum is below \<open>2 ^ 32\<close> every intermediate value is an integer below
  \<open>2 ^ 53\<close> and the result is exact; otherwise the rounded sum is \<open>2 ^ 32\<close> or more
  (rounding is monotone and \<open>2 ^ 32\<close> is representable) and the conversion is undefined.
\<close>

definition add_conv :: "nat \<Rightarrow> nat \<Rightarrow> ub + nat" where
  "add_conv x d = (if x + d < 2 ^ 32 then Inr (x + d) else Inl ConvRange)"

subsection \<open>Completion-time test\<close>

text \<open>\<^verbatim>\<open>for (int j = 0; j <= i; j++) an += wcet[j];\<close>\<close>

function ct_seed :: "u32 list \<Rightarrow> nat \<Rightarrow> nat \<Rightarrow> nat \<Rightarrow> ub + nat" where
  "ct_seed wcet i j an =
     (if j \<le> i then
        (case rd wcet j of
           Inl e \<Rightarrow> Inl e
         | Inr w \<Rightarrow>
             if j < 2 ^ 31 - 1 then ct_seed wcet i (j + 1) ((an + w) mod 2 ^ 32)
             else Inl IntOverflow)
      else Inr an)"
  by pat_completeness auto
termination
  by (relation "measure (\<lambda>(wcet, i, j, an). Suc i - j)") auto

declare ct_seed.simps [simp del]

text \<open>
  \<^verbatim>\<open>for (int j = 0; j < i; j++) anext += ceil((double)an / period[j]) * wcet[j];\<close>
  With \<^verbatim>\<open>period[j] == 0\<close> the quotient is infinite or not a number, and so is the sum
  that is converted.
\<close>

function ct_sum :: "u32 list \<Rightarrow> u32 list \<Rightarrow> nat \<Rightarrow> nat \<Rightarrow> nat \<Rightarrow> nat \<Rightarrow> ub + nat" where
  "ct_sum period wcet i an j anext =
     (if j < i then
        (case rd period j of
           Inl e \<Rightarrow> Inl e
         | Inr p \<Rightarrow>
             (case rd wcet j of
                Inl e \<Rightarrow> Inl e
              | Inr w \<Rightarrow>
                  if p = 0 then Inl ConvRange
                  else (case add_conv anext (ceil_div an p * w) of
                          Inl e \<Rightarrow> Inl e
                        | Inr s \<Rightarrow>
                            if j < 2 ^ 31 - 1 then ct_sum period wcet i an (j + 1) s
                            else Inl IntOverflow)))
      else Inr anext)"
  by pat_completeness auto
termination
  by (relation "measure (\<lambda>(period, wcet, i, an, j, anext). i - j)") auto

declare ct_sum.simps [simp del]

text \<open>One pass of the body of the \<^verbatim>\<open>do ... while (1)\<close> loop: \<^verbatim>\<open>anext\<close> from \<^verbatim>\<open>an\<close>.\<close>

definition ct_next :: "u32 list \<Rightarrow> u32 list \<Rightarrow> nat \<Rightarrow> nat \<Rightarrow> ub + nat" where
  "ct_next period wcet i an =
     (case rd wcet i of
        Inl e \<Rightarrow> Inl e
      | Inr wi \<Rightarrow> ct_sum period wcet i an 0 wi)"

text \<open>
  The \<^verbatim>\<open>do ... while (1)\<close> loop leaves only through \<^verbatim>\<open>if (anext == an) break;\<close>.
  It is a recursion on \<^verbatim>\<open>an\<close>. The recursion is well founded because a pass is monotone
  in \<^verbatim>\<open>an\<close>: the iterates move in one direction, inside \<open>0 ..< 2 ^ 32\<close>, until they
  stop at a fixed point or a conversion leaves the range of \<^verbatim>\<open>unsigned int\<close>.
\<close>

definition ct_measure :: "u32 list \<Rightarrow> u32 list \<Rightarrow> nat \<Rightarrow> nat \<Rightarrow> nat" where
  "ct_measure period wcet i an =
     (case ct_next period wcet i an of
        Inl e \<Rightarrow> 0
      | Inr anext \<Rightarrow> if anext = an then 0 else if an < anext then 2 ^ 32 - an else an)"

lemma rd_Inr: "rd a j = Inr v \<longleftrightarrow> j < length a \<and> v = unat (a ! j)"
  by (auto simp: rd_def)

lemma rd_lt: "rd a j = Inr v \<Longrightarrow> v < 2 ^ 32"
proof -
  assume "rd a j = Inr v"
  then have "v = unat (a ! j)" by (simp add: rd_Inr)
  moreover have "unat (a ! j) < 2 ^ LENGTH(32)" by (rule unsigned_less)
  ultimately show ?thesis by simp
qed

lemma ceil_div_mono: "a \<le> b \<Longrightarrow> ceil_div a p \<le> ceil_div b p"
  unfolding ceil_div_def by (intro div_le_mono) simp

lemma ct_sum_Inr:
  "ct_sum period wcet i an j x = Inr r \<Longrightarrow>
   r = x + (\<Sum>t = j..<i. ceil_div an (unat (period ! t)) * unat (wcet ! t))"
proof (induction period wcet i an j x rule: ct_sum.induct)
  case (1 period wcet i an j anext)
  show ?case
  proof (cases "j < i")
    case False
    with "1.prems" show ?thesis by (simp add: ct_sum.simps)
  next
    case True
    from "1.prems" True obtain p w s where
      p: "rd period j = Inr p" and w: "rd wcet j = Inr w" and p0: "p \<noteq> 0"
      and s: "add_conv anext (ceil_div an p * w) = Inr s" and jm: "j < 2 ^ 31 - 1"
      and rest: "ct_sum period wcet i an (j + 1) s = Inr r"
      by (subst (asm) ct_sum.simps) (auto split: sum.splits if_splits)
    have "r = s + (\<Sum>t = j + 1..<i. ceil_div an (unat (period ! t)) * unat (wcet ! t))"
      using "1.IH" [OF True p w p0 s jm rest] .
    moreover have "s = anext + ceil_div an (unat (period ! j)) * unat (wcet ! j)"
      using s p w by (auto simp: add_conv_def rd_Inr split: if_splits)
    moreover have "(\<Sum>t = j..<i. ceil_div an (unat (period ! t)) * unat (wcet ! t)) =
        ceil_div an (unat (period ! j)) * unat (wcet ! j)
        + (\<Sum>t = j + 1..<i. ceil_div an (unat (period ! t)) * unat (wcet ! t))"
      using True by (simp add: sum.atLeast_Suc_lessThan)
    ultimately show ?thesis by simp
  qed
qed

lemma ct_sum_lt: "ct_sum period wcet i an j x = Inr r \<Longrightarrow> x < 2 ^ 32 \<Longrightarrow> r < 2 ^ 32"
proof (induction period wcet i an j x rule: ct_sum.induct)
  case (1 period wcet i an j anext)
  show ?case
  proof (cases "j < i")
    case False
    with "1.prems" show ?thesis by (simp add: ct_sum.simps)
  next
    case True
    from "1.prems" True obtain p w s where
      p: "rd period j = Inr p" and w: "rd wcet j = Inr w" and p0: "p \<noteq> 0"
      and s: "add_conv anext (ceil_div an p * w) = Inr s" and jm: "j < 2 ^ 31 - 1"
      and rest: "ct_sum period wcet i an (j + 1) s = Inr r"
      by (subst (asm) ct_sum.simps) (auto split: sum.splits if_splits)
    have "s < 2 ^ 32" using s by (auto simp: add_conv_def split: if_splits)
    then show ?thesis using "1.IH" [OF True p w p0 s jm rest] by simp
  qed
qed

lemma ct_next_Inr:
  "ct_next period wcet i an = Inr r \<Longrightarrow>
   r = unat (wcet ! i) + (\<Sum>t = 0..<i. ceil_div an (unat (period ! t)) * unat (wcet ! t))
   \<and> r < 2 ^ 32"
proof -
  assume a: "ct_next period wcet i an = Inr r"
  then obtain wi where wi: "rd wcet i = Inr wi" and s: "ct_sum period wcet i an 0 wi = Inr r"
    by (auto simp: ct_next_def split: sum.splits)
  have "wi = unat (wcet ! i)" using wi by (simp add: rd_Inr)
  with ct_sum_Inr [OF s] ct_sum_lt [OF s rd_lt [OF wi]] show ?thesis by simp
qed

lemma ct_next_mono:
  assumes "ct_next period wcet i a = Inr r" and "ct_next period wcet i b = Inr s" and "a \<le> b"
  shows "r \<le> s"
proof -
  have "(\<Sum>t = 0..<i. ceil_div a (unat (period ! t)) * unat (wcet ! t))
      \<le> (\<Sum>t = 0..<i. ceil_div b (unat (period ! t)) * unat (wcet ! t))"
    by (intro sum_mono mult_le_mono1 ceil_div_mono assms(3))
  with ct_next_Inr [OF assms(1)] ct_next_Inr [OF assms(2)] show ?thesis by simp
qed

lemma ct_measure_decreases:
  assumes nxt: "ct_next period wcet i an = Inr anext" and ne: "anext \<noteq> an"
  shows "ct_measure period wcet i anext < ct_measure period wcet i an"
proof -
  have lt: "anext < 2 ^ 32" using ct_next_Inr [OF nxt] by simp
  show ?thesis
  proof (cases "ct_next period wcet i anext")
    case (Inl e)
    then show ?thesis using nxt ne lt by (auto simp: ct_measure_def)
  next
    case (Inr c)
    show ?thesis
    proof (cases "an < anext")
      case True
      then have "anext \<le> c" using ct_next_mono [OF nxt Inr] by simp
      then show ?thesis using nxt Inr ne lt True by (auto simp: ct_measure_def)
    next
      case False
      then have "c \<le> anext" using ct_next_mono [OF Inr nxt] by simp
      then show ?thesis using nxt Inr ne lt False by (auto simp: ct_measure_def)
    qed
  qed
qed

function ct_iter :: "u32 list \<Rightarrow> u32 list \<Rightarrow> nat \<Rightarrow> nat \<Rightarrow> ub + nat" where
  "ct_iter period wcet i an =
     (case ct_next period wcet i an of
        Inl e \<Rightarrow> Inl e
      | Inr anext \<Rightarrow> if anext = an then Inr an else ct_iter period wcet i anext)"
  by pat_completeness auto
termination
  by (relation "measure (\<lambda>(period, wcet, i, an). ct_measure period wcet i an)")
     (auto simp: ct_measure_decreases)

declare ct_iter.simps [simp del]

text \<open>
  The loop over the services: the seed, the iteration, then
  \<^verbatim>\<open>if (an > deadline[i]) return FALSE;\<close>, and \<^verbatim>\<open>return TRUE\<close> after the last service.
\<close>

function ct_tasks :: "u32 \<Rightarrow> u32 list \<Rightarrow> u32 list \<Rightarrow> u32 list \<Rightarrow> nat \<Rightarrow> ub + bool" where
  "ct_tasks numServices period wcet deadline i =
     (if i < unat numServices then
        (case ct_seed wcet i 0 0 of
           Inl e \<Rightarrow> Inl e
         | Inr a0 \<Rightarrow>
             (case ct_iter period wcet i a0 of
                Inl e \<Rightarrow> Inl e
              | Inr an \<Rightarrow>
                  (case rd deadline i of
                     Inl e \<Rightarrow> Inl e
                   | Inr d \<Rightarrow>
                       if an > d then Inr False
                       else if i < 2 ^ 31 - 1 then
                         ct_tasks numServices period wcet deadline (i + 1)
                       else Inl IntOverflow)))
      else Inr True)"
  by pat_completeness auto
termination
  by (relation "measure (\<lambda>(numServices, period, wcet, deadline, i). unat numServices - i)") auto

declare ct_tasks.simps [simp del]

definition completion_time_feasibility :: "u32 \<Rightarrow> u32 list \<Rightarrow> u32 list \<Rightarrow> u32 list \<Rightarrow> ub + bool" where
  "completion_time_feasibility numServices period wcet deadline =
     ct_tasks numServices period wcet deadline 0"

subsection \<open>Scheduling-point test\<close>

text \<open>
  \<^verbatim>\<open>for (int j = 0; j <= i; j++) temp += wcet[j] * ceil((double)(l * period[k]) / period[j]);\<close>
  with \<open>t\<close> the value of \<^verbatim>\<open>l * period[k]\<close>. The accumulation is in \<^verbatim>\<open>double\<close> and is
  converted back to \<^verbatim>\<open>U32_T\<close> at every step, as in the completion-time test.
\<close>

function sp_demand :: "u32 list \<Rightarrow> u32 list \<Rightarrow> nat \<Rightarrow> nat \<Rightarrow> nat \<Rightarrow> nat \<Rightarrow> ub + nat" where
  "sp_demand period wcet i t j temp =
     (if j \<le> i then
        (case rd wcet j of
           Inl e \<Rightarrow> Inl e
         | Inr w \<Rightarrow>
             (case rd period j of
                Inl e \<Rightarrow> Inl e
              | Inr p \<Rightarrow>
                  if p = 0 then Inl ConvRange
                  else (case add_conv temp (w * ceil_div t p) of
                          Inl e \<Rightarrow> Inl e
                        | Inr s \<Rightarrow>
                            if j < 2 ^ 31 - 1 then sp_demand period wcet i t (j + 1) s
                            else Inl IntOverflow)))
      else Inr temp)"
  by pat_completeness auto
termination
  by (relation "measure (\<lambda>(period, wcet, i, t, j, temp). Suc i - j)") auto

declare sp_demand.simps [simp del]

text \<open>
  \<^verbatim>\<open>for (int l = 1; l <= floor((double)period[i] / period[k]); l++)\<close>: the result is
  \<^verbatim>\<open>status\<close>. The bound is \<open>period[i] div period[k]\<close>; with \<^verbatim>\<open>period[k] == 0\<close> it is
  infinite (the comparison holds for every \<^verbatim>\<open>l\<close>) unless \<^verbatim>\<open>period[i] == 0\<close> too, when it
  is not a number (the comparison fails). \<^verbatim>\<open>l * period[k]\<close> is an unsigned product.
\<close>

function sp_points :: "u32 list \<Rightarrow> u32 list \<Rightarrow> nat \<Rightarrow> nat \<Rightarrow> nat \<Rightarrow> ub + bool" where
  "sp_points period wcet i k l =
     (case rd period i of
        Inl e \<Rightarrow> Inl e
      | Inr per_i \<Rightarrow>
          (case rd period k of
             Inl e \<Rightarrow> Inl e
           | Inr per_k \<Rightarrow>
               if (if per_k = 0 then per_i \<noteq> 0 else l \<le> per_i div per_k) then
                 (case sp_demand period wcet i ((l * per_k) mod 2 ^ 32) 0 0 of
                    Inl e \<Rightarrow> Inl e
                  | Inr temp \<Rightarrow>
                      if temp \<le> (l * per_k) mod 2 ^ 32 then Inr True
                      else if l < 2 ^ 31 - 1 then sp_points period wcet i k (l + 1)
                      else Inl IntOverflow)
               else Inr False))"
  by pat_completeness auto
termination
  by (relation "measure (\<lambda>(period, wcet, i, k, l). 2 ^ 31 - l)") auto

declare sp_points.simps [simp del]

text \<open>\<^verbatim>\<open>for (int k = 0; k <= i; k++) { ...; if (status) break; }\<close>\<close>

function sp_search :: "u32 list \<Rightarrow> u32 list \<Rightarrow> nat \<Rightarrow> nat \<Rightarrow> ub + bool" where
  "sp_search period wcet i k =
     (if k \<le> i then
        (case sp_points period wcet i k 1 of
           Inl e \<Rightarrow> Inl e
         | Inr status \<Rightarrow>
             if status then Inr True
             else if k < 2 ^ 31 - 1 then sp_search period wcet i (k + 1)
             else Inl IntOverflow)
      else Inr False)"
  by pat_completeness auto
termination
  by (relation "measure (\<lambda>(period, wcet, i, k). Suc i - k)") auto

declare sp_search.simps [simp del]

text \<open>The loop over the services: \<^verbatim>\<open>if (!status) rc = FALSE;\<close>, and \<^verbatim>\<open>return rc\<close> at the end.\<close>

function sp_tasks :: "u32 \<Rightarrow> u32 list \<Rightarrow> u32 list \<Rightarrow> nat \<Rightarrow> bool \<Rightarrow> ub + bool" where
  "sp_tasks numServices period wcet i rc =
     (if i < unat numServices then
        (case sp_search period wcet i 0 of
           Inl e \<Rightarrow> Inl e
         | Inr status \<Rightarrow>
             if i < 2 ^ 31 - 1 then
               sp_tasks numServices period wcet (i + 1) (if status then rc else False)
             else Inl IntOverflow)
      else Inr rc)"
  by pat_completeness auto
termination
  by (relation "measure (\<lambda>(numServices, period, wcet, i, rc). unat numServices - i)") auto

declare sp_tasks.simps [simp del]

definition scheduling_point_feasibility :: "u32 \<Rightarrow> u32 list \<Rightarrow> u32 list \<Rightarrow> u32 list \<Rightarrow> ub + bool" where
  "scheduling_point_feasibility numServices period wcet deadline =
     sp_tasks numServices period wcet 0 True"

subsection \<open>Utilization tests\<close>

text \<open>
  The utilization tests compute in \<^verbatim>\<open>double\<close>. A \<^verbatim>\<open>double\<close> is a real number, an infinity
  or not a number; every operation returns the exact result rounded to the nearest binary64
  value, ties to the even significand (IEC 60559, the default rounding mode).

  \<open>half_even\<close> rounds a real to the nearest integer, ties to even. \<open>bexp x\<close> is the binary
  exponent of \<open>x > 0\<close>, the \<open>e\<close> with \<open>2 ^ e \<le> x < 2 ^ (e + 1)\<close>, kept within the exponent range
  \<open>- 1022 .. 1023\<close> of binary64 (below it the numbers are subnormal, with the spacing
  \<open>2 ^ - 1074\<close>). \<open>rne x\<close> rounds \<open>x\<close> to 53 significant bits: to a multiple of
  \<open>2 ^ (bexp x - 52)\<close>. \<open>d_round\<close> adds the overflow to an infinity.
\<close>

definition half_even :: "real \<Rightarrow> int" where
  "half_even r =
     (let f = \<lfloor>r\<rfloor>; d = r - of_int f
      in if d < 1 / 2 then f else if 1 / 2 < d then f + 1 else if even f then f else f + 1)"

function bexp_down :: "real \<Rightarrow> int \<Rightarrow> int" where
  "bexp_down x e = (if 1 \<le> x \<or> e \<le> - 1022 then e else bexp_down (2 * x) (e - 1))"
  by pat_completeness auto
termination
  by (relation "measure (\<lambda>(x, e). nat (e + 1022))") auto

function bexp_up :: "real \<Rightarrow> int \<Rightarrow> int" where
  "bexp_up x e = (if x < 2 \<or> 1023 \<le> e then e else bexp_up (x / 2) (e + 1))"
  by pat_completeness auto
termination
  by (relation "measure (\<lambda>(x, e). nat (1023 - e))") auto

declare bexp_down.simps [simp del] bexp_up.simps [simp del]

definition bexp :: "real \<Rightarrow> int" where
  "bexp x = (if x < 1 then bexp_down x 0 else bexp_up x 0)"

definition pow2 :: "int \<Rightarrow> real" where
  "pow2 e = (if 0 \<le> e then 2 ^ nat e else 1 / 2 ^ nat (- e))"

definition rne :: "real \<Rightarrow> real" where
  "rne x =
     (if x = 0 then 0
      else let u = pow2 (bexp \<bar>x\<bar> - 52)
           in sgn x * of_int (half_even (\<bar>x\<bar> / u)) * u)"

datatype dbl = Fin real | PInf | MInf | NaN

definition d_round :: "real \<Rightarrow> dbl" where
  "d_round x =
     (let r = rne x
      in if 2 ^ 1024 \<le> r then PInf else if r \<le> - (2 ^ 1024) then MInf else Fin r)"

text \<open>
  Addition, multiplication and \<^verbatim>\<open><=\<close> on \<^verbatim>\<open>double\<close>, with the infinities and not-a-number
  as IEC 60559 has them (a comparison with not-a-number is false). The sign of a zero makes
  no difference to a comparison and is left out.
\<close>

fun fadd :: "dbl \<Rightarrow> dbl \<Rightarrow> dbl" where
  "fadd (Fin a) (Fin b) = d_round (a + b)"
| "fadd NaN _ = NaN"
| "fadd _ NaN = NaN"
| "fadd PInf MInf = NaN"
| "fadd MInf PInf = NaN"
| "fadd PInf _ = PInf"
| "fadd _ PInf = PInf"
| "fadd MInf _ = MInf"
| "fadd _ MInf = MInf"

fun fmul :: "dbl \<Rightarrow> dbl \<Rightarrow> dbl" where
  "fmul (Fin a) (Fin b) = d_round (a * b)"
| "fmul NaN _ = NaN"
| "fmul _ NaN = NaN"
| "fmul (Fin a) PInf = (if a = 0 then NaN else if 0 < a then PInf else MInf)"
| "fmul (Fin a) MInf = (if a = 0 then NaN else if 0 < a then MInf else PInf)"
| "fmul PInf (Fin b) = (if b = 0 then NaN else if 0 < b then PInf else MInf)"
| "fmul MInf (Fin b) = (if b = 0 then NaN else if 0 < b then MInf else PInf)"
| "fmul PInf PInf = PInf"
| "fmul MInf MInf = PInf"
| "fmul PInf MInf = MInf"
| "fmul MInf PInf = MInf"

fun fle :: "dbl \<Rightarrow> dbl \<Rightarrow> bool" where
  "fle (Fin a) (Fin b) = (a \<le> b)"
| "fle NaN _ = False"
| "fle _ NaN = False"
| "fle MInf _ = True"
| "fle _ PInf = True"
| "fle PInf _ = False"
| "fle _ MInf = False"

text \<open>
  \<^verbatim>\<open>(double)a / b\<close> for two \<^verbatim>\<open>unsigned int\<close>: the conversions are exact; a zero divisor gives
  an infinity, or not-a-number when the dividend is zero too. \<^verbatim>\<open>1.0 / numServices\<close> is the
  same division.
\<close>

definition nat_fdiv :: "nat \<Rightarrow> nat \<Rightarrow> dbl" where
  "nat_fdiv a b = (if b = 0 then (if a = 0 then NaN else PInf) else d_round (real a / real b))"

text \<open>
  \<^verbatim>\<open>for (int idx = 0; idx < numServices; idx++) utility_sum += (double)wcet[idx] / period[idx];\<close>
  The loops of \<^verbatim>\<open>edf_feasibility\<close> and \<^verbatim>\<open>llf_feasibility\<close> are the same loop under other
  names. The \<^verbatim>\<open>printf\<close> calls print and change nothing.
\<close>

function util_sum :: "u32 \<Rightarrow> u32 list \<Rightarrow> u32 list \<Rightarrow> nat \<Rightarrow> dbl \<Rightarrow> ub + dbl" where
  "util_sum numServices period wcet idx s =
     (if idx < unat numServices then
        (case rd wcet idx of
           Inl e \<Rightarrow> Inl e
         | Inr w \<Rightarrow>
             (case rd period idx of
                Inl e \<Rightarrow> Inl e
              | Inr p \<Rightarrow>
                  if idx < 2 ^ 31 - 1 then
                    util_sum numServices period wcet (idx + 1) (fadd s (nat_fdiv w p))
                  else Inl IntOverflow))
      else Inr s)"
  by pat_completeness auto
termination
  by (relation "measure (\<lambda>(numServices, period, wcet, idx, s). unat numServices - idx)") auto

declare util_sum.simps [simp del]

text \<open>
  \<^verbatim>\<open>lub = numServices * (pow(2.0, 1.0 / numServices) - 1.0); return utility_sum <= lub;\<close>
  \<^verbatim>\<open>pow\<close> is the C library's; the standard does not fix its rounding, so it is a parameter
  here. \<^verbatim>\<open>numServices\<close> is converted to \<^verbatim>\<open>double\<close> exactly. The argument \<^verbatim>\<open>deadline\<close> is not
  used.
\<close>

definition rate_monotonic_least_upper_bound ::
  "(dbl \<Rightarrow> dbl \<Rightarrow> dbl) \<Rightarrow> u32 \<Rightarrow> u32 list \<Rightarrow> u32 list \<Rightarrow> u32 list \<Rightarrow> ub + bool" where
  "rate_monotonic_least_upper_bound pow numServices period wcet deadline =
     (case util_sum numServices period wcet 0 (Fin 0) of
        Inl e \<Rightarrow> Inl e
      | Inr utility_sum \<Rightarrow>
          (let lub = fmul (Fin (real (unat numServices)))
                       (fadd (pow (Fin 2) (nat_fdiv 1 (unat numServices))) (Fin (- 1)))
           in Inr (fle utility_sum lub)))"

text \<open>\<^verbatim>\<open>return totalUtilization <= 1.0 ? TRUE : FALSE;\<close>, twice.\<close>

definition edf_feasibility :: "u32 \<Rightarrow> u32 list \<Rightarrow> u32 list \<Rightarrow> ub + bool" where
  "edf_feasibility numServices period wcet =
     (case util_sum numServices period wcet 0 (Fin 0) of
        Inl e \<Rightarrow> Inl e
      | Inr totalUtilization \<Rightarrow> Inr (fle totalUtilization (Fin 1)))"

definition llf_feasibility :: "u32 \<Rightarrow> u32 list \<Rightarrow> u32 list \<Rightarrow> ub + bool" where
  "llf_feasibility numServices period wcet =
     (case util_sum numServices period wcet 0 (Fin 0) of
        Inl e \<Rightarrow> Inl e
      | Inr totalUtilization \<Rightarrow> Inr (fle totalUtilization (Fin 1)))"

lemmas fl_eval = rne_def bexp_def bexp_down.simps bexp_up.simps half_even_def Let_def pow2_def
  d_round_def nat_fdiv_def

section \<open>The tests as the specification words them\<close>

subsection \<open>Response-time iteration\<close>

text \<open>
  These definitions follow the specification, not the code: the seed
  \<open>a\<^sub>0 = \<Sum>\<^sub>j\<^sub>\<le>\<^sub>i wcet\<^sub>j\<close>, the step
  \<open>a\<^sub>k\<^sub>+\<^sub>1 = wcet\<^sub>i + \<Sum>\<^sub>j\<^sub><\<^sub>i \<lceil>a\<^sub>k / period\<^sub>j\<rceil> * wcet\<^sub>j\<close> with the ceiling of
  the real quotient, over unbounded naturals, and "the iteration reaches the fixed point \<open>R\<close>".
\<close>

text \<open>The ceiling and the floor of the real quotient of two naturals.\<close>

definition ceil_q :: "nat \<Rightarrow> nat \<Rightarrow> nat" where
  "ceil_q a p = nat \<lceil>real a / real p\<rceil>"

definition floor_q :: "nat \<Rightarrow> nat \<Rightarrow> nat" where
  "floor_q a p = nat \<lfloor>real a / real p\<rfloor>"

definition rt_seed :: "u32 list \<Rightarrow> nat \<Rightarrow> nat" where
  "rt_seed wcet i = (\<Sum>j = 0..<Suc i. unat (wcet ! j))"

definition rt_step :: "u32 list \<Rightarrow> u32 list \<Rightarrow> nat \<Rightarrow> nat \<Rightarrow> nat" where
  "rt_step period wcet i a =
     unat (wcet ! i) + (\<Sum>j = 0..<i. ceil_q a (unat (period ! j)) * unat (wcet ! j))"

primrec rt_seq :: "u32 list \<Rightarrow> u32 list \<Rightarrow> nat \<Rightarrow> nat \<Rightarrow> nat" where
  "rt_seq period wcet i 0 = rt_seed wcet i"
| "rt_seq period wcet i (Suc k) = rt_step period wcet i (rt_seq period wcet i k)"

definition rt_fixed_point :: "u32 list \<Rightarrow> u32 list \<Rightarrow> nat \<Rightarrow> nat \<Rightarrow> bool" where
  "rt_fixed_point period wcet i R \<longleftrightarrow> (\<exists>k. rt_seq period wcet i k = R \<and> rt_seq period wcet i (Suc k) = R)"

lemma ceil_div_eq: "0 < p \<Longrightarrow> ceil_div a p = ceil_q a p"
proof -
  assume p: "0 < p"
  define q where "q = (a + p - 1) div p"
  have le: "q * p \<le> a + p - 1" unfolding q_def by simp
  have "a + p - 1 < q * p + p" unfolding q_def using p
    by (metis add.commute dividend_less_div_times mult.commute)
  then have up: "a \<le> q * p" using p by simp
  have lo: "q * p < a + p" using le p by simp
  have "real a \<le> real (q * p)" using up by (rule of_nat_mono)
  then have 1: "real a / real p \<le> of_int (int q)" using p by (simp add: field_simps)
  have "real (q * p) < real (a + p)" using lo by (simp only: of_nat_less_iff)
  then have 2: "of_int (int q) - 1 < real a / real p" using p by (simp add: field_simps)
  have "\<lceil>real a / real p\<rceil> = int q" by (rule ceiling_unique [OF 2 1])
  then show ?thesis by (simp add: ceil_div_def ceil_q_def q_def)
qed

lemma floor_q_eq: "floor_q a p = a div p"
  by (simp add: floor_q_def floor_divide_of_nat_eq)

lemma ceil_q_mono: "s \<le> t \<Longrightarrow> ceil_q s p \<le> ceil_q t p"
  unfolding ceil_q_def by (intro nat_mono ceiling_mono divide_right_mono) simp_all

lemma ceil_q_ge_1: "0 < p \<Longrightarrow> 1 \<le> a \<Longrightarrow> 1 \<le> ceil_q a p"
proof -
  assume "0 < p" "1 \<le> a"
  then have "0 < real a / real p" by simp
  then have "0 < \<lceil>real a / real p\<rceil>" by (simp only: zero_less_ceiling)
  then show ?thesis unfolding ceil_q_def by linarith
qed

lemma ct_seed_eq:
  "i < length wcet \<Longrightarrow> i < 2 ^ 31 - 1 \<Longrightarrow> j \<le> Suc i \<Longrightarrow> an < 2 ^ 32 \<Longrightarrow>
   ct_seed wcet i j an = Inr ((an + (\<Sum>t = j..<Suc i. unat (wcet ! t))) mod 2 ^ 32)"
proof (induction wcet i j an rule: ct_seed.induct)
  case (1 wcet i j an)
  show ?case
  proof (cases "j \<le> i")
    case False
    with "1.prems" have "j = Suc i" by simp
    with "1.prems" show ?thesis by (simp add: ct_seed.simps)
  next
    case True
    then have rdj: "rd wcet j = Inr (unat (wcet ! j))" using "1.prems" by (simp add: rd_def)
    have jm: "j < 2 ^ 31 - 1" using True "1.prems"(2) by simp
    have "ct_seed wcet i (j + 1) ((an + unat (wcet ! j)) mod 2 ^ 32)
        = Inr (((an + unat (wcet ! j)) mod 2 ^ 32 + (\<Sum>t = j + 1..<Suc i. unat (wcet ! t))) mod 2 ^ 32)"
      using "1.IH" [OF True rdj jm] "1.prems" True by simp
    moreover have "(\<Sum>t = j..<Suc i. unat (wcet ! t)) = unat (wcet ! j) + (\<Sum>t = j + 1..<Suc i. unat (wcet ! t))"
      using True sum.atLeast_Suc_lessThan [of j "Suc i" "\<lambda>t. unat (wcet ! t)"] by simp
    ultimately show ?thesis using True rdj jm
      by (subst ct_seed.simps) (simp add: mod_add_left_eq add.assoc)
  qed
qed

lemma ct_seed_start:
  "i < length wcet \<Longrightarrow> i < 2 ^ 31 - 1 \<Longrightarrow> ct_seed wcet i 0 0 = Inr (rt_seed wcet i mod 2 ^ 32)"
  using ct_seed_eq [of i wcet 0 0] by (simp add: rt_seed_def)

lemma ct_sum_eq:
  "i \<le> length period \<Longrightarrow> i \<le> length wcet \<Longrightarrow> \<forall>t<i. period ! t \<noteq> 0 \<Longrightarrow> i < 2 ^ 31 - 1 \<Longrightarrow>
   x < 2 ^ 32 \<Longrightarrow>
   ct_sum period wcet i an j x =
     (if x + (\<Sum>t = j..<i. ceil_div an (unat (period ! t)) * unat (wcet ! t)) < 2 ^ 32
      then Inr (x + (\<Sum>t = j..<i. ceil_div an (unat (period ! t)) * unat (wcet ! t)))
      else Inl ConvRange)"
proof (induction period wcet i an j x rule: ct_sum.induct)
  case (1 period wcet i an j anext)
  let ?f = "\<lambda>t. ceil_div an (unat (period ! t)) * unat (wcet ! t)"
  show ?case
  proof (cases "j < i")
    case False
    then show ?thesis using "1.prems" by (simp add: ct_sum.simps)
  next
    case True
    have rp: "rd period j = Inr (unat (period ! j))" and rw: "rd wcet j = Inr (unat (wcet ! j))"
      using True "1.prems" by (simp_all add: rd_def)
    have p0: "unat (period ! j) \<noteq> 0" using True "1.prems" by (simp add: unat_eq_0)
    have jm: "j < 2 ^ 31 - 1" using True "1.prems"(4) by simp
    have split: "(\<Sum>t = j..<i. ?f t) = ?f j + (\<Sum>t = j + 1..<i. ?f t)"
      using True by (simp add: sum.atLeast_Suc_lessThan)
    show ?thesis
    proof (cases "anext + ?f j < 2 ^ 32")
      case False
      then have "add_conv anext (?f j) = Inl ConvRange" by (simp add: add_conv_def)
      moreover have "\<not> anext + (\<Sum>t = j..<i. ?f t) < 2 ^ 32" using False split by simp
      ultimately show ?thesis using True rp rw p0 by (subst ct_sum.simps) simp
    next
      case lt: True
      then have ac: "add_conv anext (?f j) = Inr (anext + ?f j)" by (simp add: add_conv_def)
      show ?thesis
        using "1.IH" [OF True rp rw p0 ac jm "1.prems"(1,2,3,4) lt] True rp rw p0 ac jm split
        by (subst ct_sum.simps) (simp add: add.assoc)
    qed
  qed
qed

lemma rt_step_ceil_div:
  "\<forall>t<i. period ! t \<noteq> 0 \<Longrightarrow>
   rt_step period wcet i a = unat (wcet ! i) + (\<Sum>t = 0..<i. ceil_div a (unat (period ! t)) * unat (wcet ! t))"
  unfolding rt_step_def by (simp add: ceil_div_eq unat_gt_0)

lemma ct_next_eq:
  assumes "i \<le> length period" "i < length wcet" "\<forall>t<i. period ! t \<noteq> 0" "i < 2 ^ 31 - 1"
  shows "ct_next period wcet i a =
     (if rt_step period wcet i a < 2 ^ 32 then Inr (rt_step period wcet i a) else Inl ConvRange)"
proof -
  have "rd wcet i = Inr (unat (wcet ! i))" using assms by (simp add: rd_def)
  moreover have "unat (wcet ! i) < 2 ^ 32" using rd_lt [OF calculation] .
  ultimately show ?thesis
    using assms ct_sum_eq [of i period wcet "unat (wcet ! i)" a 0]
    by (simp add: ct_next_def rt_step_ceil_div)
qed

lemma rt_step_mono: "a \<le> b \<Longrightarrow> rt_step period wcet i a \<le> rt_step period wcet i b"
  unfolding rt_step_def by (intro add_left_mono sum_mono mult_le_mono1 ceil_q_mono)

lemma funpow_fixed: "f x = x \<Longrightarrow> (f ^^ k) x = x"
  by (induction k) simp_all

lemma rt_seq_funpow: "rt_seq period wcet i k = (rt_step period wcet i ^^ k) (rt_seed wcet i)"
  by (induction k) simp_all

lemma ct_iter_reaches:
  assumes v: "i \<le> length period" "i < length wcet" "\<forall>t<i. period ! t \<noteq> 0" "i < 2 ^ 31 - 1"
    and fx: "rt_step period wcet i R = R" and lt: "R < 2 ^ 32"
  shows "(rt_step period wcet i ^^ k) a = R \<Longrightarrow> a \<le> R \<Longrightarrow> ct_iter period wcet i a = Inr R"
proof (induction k arbitrary: a)
  case 0
  then show ?case using fx lt by (subst ct_iter.simps) (simp add: ct_next_eq [OF v])
next
  case (Suc k)
  let ?b = "rt_step period wcet i a"
  have bR: "?b \<le> R" using rt_step_mono [OF Suc.prems(2), of period wcet i] fx by simp
  have nx: "ct_next period wcet i a = Inr ?b" using bR lt by (simp add: ct_next_eq [OF v])
  show ?case
  proof (cases "?b = a")
    case True
    then have "R = a" using Suc.prems(1) funpow_fixed [of "rt_step period wcet i" a "Suc k"] by simp
    then show ?thesis using nx True by (subst ct_iter.simps) simp
  next
    case False
    have "(rt_step period wcet i ^^ k) ?b = R" using Suc.prems(1) by (simp add: funpow_swap1)
    from Suc.IH [OF this bR] show ?thesis using nx False by (subst ct_iter.simps) simp
  qed
qed

lemma ct_iter_Inr:
  "i \<le> length period \<Longrightarrow> i < length wcet \<Longrightarrow> \<forall>t<i. period ! t \<noteq> 0 \<Longrightarrow> i < 2 ^ 31 - 1 \<Longrightarrow>
   ct_iter period wcet i a = Inr R \<Longrightarrow>
    rt_step period wcet i R = R \<and> R < 2 ^ 32 \<and> (\<exists>k. (rt_step period wcet i ^^ k) a = R)"
proof (induction period wcet i a rule: ct_iter.induct)
  case (1 period wcet i an)
  note v = "1.prems"(1,2,3,4)
  let ?b = "rt_step period wcet i an"
  from "1.prems"(5) have nx: "ct_next period wcet i an = Inr ?b" and lt: "?b < 2 ^ 32"
    by (subst (asm) ct_iter.simps, simp add: ct_next_eq [OF v] split: if_splits)+
  show ?case
  proof (cases "?b = an")
    case True
    then have "R = an" using "1.prems"(5) nx by (subst (asm) ct_iter.simps) simp
    then show ?thesis using True lt funpow_0 [of "rt_step period wcet i" an] by metis
  next
    case False
    then have "ct_iter period wcet i ?b = Inr R"
      using "1.prems"(5) nx by (subst (asm) ct_iter.simps) simp
    from "1.IH" [OF nx False v this] obtain k where
      fx: "rt_step period wcet i R = R" and R: "R < 2 ^ 32"
      and k: "(rt_step period wcet i ^^ k) ?b = R" by blast
    have "(rt_step period wcet i ^^ Suc k) an = R" using k by (simp add: funpow_swap1)
    with fx R show ?thesis by blast
  qed
qed


text \<open>
  A task set of \<open>n\<close> tasks the functions are meant for: the arrays hold \<open>n\<close> entries, every
  period and every execution time is strictly positive, and \<open>n\<close> is below \<open>2 ^ 31\<close>, so that
  the \<^verbatim>\<open>int\<close> counters can index every task.
\<close>

definition valid_tasks :: "nat \<Rightarrow> u32 list \<Rightarrow> u32 list \<Rightarrow> bool" where
  "valid_tasks n period wcet \<longleftrightarrow>
     n < 2 ^ 31 \<and> n \<le> length period \<and> n \<le> length wcet \<and>
     (\<forall>j<n. period ! j \<noteq> 0 \<and> wcet ! j \<noteq> 0)"

definition ct_pass :: "u32 list \<Rightarrow> u32 list \<Rightarrow> u32 list \<Rightarrow> nat \<Rightarrow> bool" where
  "ct_pass period wcet deadline i \<longleftrightarrow>
     (\<exists>R. rt_fixed_point period wcet i R \<and> R \<le> unat (deadline ! i))"

lemma rt_fixed_point_iff:
  "rt_fixed_point period wcet i R \<longleftrightarrow>
   rt_step period wcet i R = R \<and> (\<exists>k. (rt_step period wcet i ^^ k) (rt_seed wcet i) = R)"
  unfolding rt_fixed_point_def by (auto simp: rt_seq_funpow)

lemma rt_step_ge_seed:
  assumes v: "valid_tasks (Suc i) period wcet" and a: "1 \<le> a"
  shows "rt_seed wcet i \<le> rt_step period wcet i a"
proof -
  have "unat (wcet ! t) \<le> ceil_q a (unat (period ! t)) * unat (wcet ! t)" if "t < i" for t
  proof -
    have "0 < unat (period ! t)" using v that by (simp add: valid_tasks_def unat_gt_0)
    then have "1 \<le> ceil_q a (unat (period ! t))" using a by (rule ceil_q_ge_1)
    then show ?thesis by simp
  qed
  then have "(\<Sum>t = 0..<i. unat (wcet ! t))
      \<le> (\<Sum>t = 0..<i. ceil_q a (unat (period ! t)) * unat (wcet ! t))"
    by (intro sum_mono) simp
  then show ?thesis by (simp add: rt_seed_def rt_step_def)
qed

lemma fixed_ge_seed:
  assumes v: "valid_tasks (Suc i) period wcet" and fx: "rt_step period wcet i R = R"
  shows "rt_seed wcet i \<le> R"
proof -
  have "0 < unat (wcet ! i)" using v by (simp add: valid_tasks_def unat_gt_0)
  then have "1 \<le> rt_step period wcet i R" by (simp add: rt_step_def)
  then have "1 \<le> R" using fx by simp
  from rt_step_ge_seed [OF v this] fx show ?thesis by simp
qed

lemma valid_tasks_loop:
  "valid_tasks (Suc i) period wcet \<Longrightarrow>
   i \<le> length period \<and> i < length wcet \<and> (\<forall>t<i. period ! t \<noteq> 0) \<and> i < 2 ^ 31 - 1"
  by (auto simp: valid_tasks_def)

lemma ct_task_fixed:
  assumes v: "valid_tasks (Suc i) period wcet"
    and fp: "rt_fixed_point period wcet i R" and lt: "R < 2 ^ 32"
  shows "ct_seed wcet i 0 0 = Inr (rt_seed wcet i) \<and> ct_iter period wcet i (rt_seed wcet i) = Inr R"
proof -
  note l = valid_tasks_loop [OF v]
  from fp obtain k where fx: "rt_step period wcet i R = R"
    and k: "(rt_step period wcet i ^^ k) (rt_seed wcet i) = R"
    by (auto simp: rt_fixed_point_iff)
  have le: "rt_seed wcet i \<le> R" by (rule fixed_ge_seed [OF v fx])
  then have "rt_seed wcet i mod 2 ^ 32 = rt_seed wcet i" using lt by simp
  then have "ct_seed wcet i 0 0 = Inr (rt_seed wcet i)" using ct_seed_start [of i wcet] l by simp
  moreover have "ct_iter period wcet i (rt_seed wcet i) = Inr R"
    using ct_iter_reaches [OF _ _ _ _ fx lt k le] l by blast
  ultimately show ?thesis by simp
qed

lemma ct_task_Inr:
  assumes v: "valid_tasks (Suc i) period wcet"
    and s: "ct_seed wcet i 0 0 = Inr a0" and it: "ct_iter period wcet i a0 = Inr R"
  shows "rt_fixed_point period wcet i R \<and> R < 2 ^ 32"
proof -
  note l = valid_tasks_loop [OF v]
  have a0: "a0 = rt_seed wcet i mod 2 ^ 32" using s ct_seed_start [of i wcet] l by simp
  from ct_iter_Inr [OF _ _ _ _ it] l obtain k where fx: "rt_step period wcet i R = R"
    and lt: "R < 2 ^ 32" and k: "(rt_step period wcet i ^^ k) a0 = R" by blast
  have "rt_seed wcet i \<le> R" by (rule fixed_ge_seed [OF v fx])
  then have "a0 = rt_seed wcet i" using a0 lt by simp
  then show ?thesis using fx k lt by (auto simp: rt_fixed_point_iff)
qed

lemma rt_fixed_point_unique:
  "rt_fixed_point period wcet i R \<Longrightarrow> rt_fixed_point period wcet i R' \<Longrightarrow> R = R'"
proof -
  assume a: "rt_fixed_point period wcet i R" and b: "rt_fixed_point period wcet i R'"
  let ?f = "rt_step period wcet i"
  from a obtain k where fx: "?f R = R" and k: "(?f ^^ k) (rt_seed wcet i) = R"
    by (auto simp: rt_fixed_point_iff)
  from b obtain k' where fx': "?f R' = R'" and k': "(?f ^^ k') (rt_seed wcet i) = R'"
    by (auto simp: rt_fixed_point_iff)
  have *: "(?f ^^ (m + n)) x = y" if "(?f ^^ m) x = y" "?f y = y" for m n x y
    using that by (simp add: add.commute [of m n] funpow_add funpow_fixed)
  have "(?f ^^ (k + k')) (rt_seed wcet i) = R" by (rule * [OF k fx])
  moreover have "(?f ^^ (k' + k)) (rt_seed wcet i) = R'" by (rule * [OF k' fx'])
  ultimately show ?thesis by (simp add: add.commute)
qed


lemma all_from_Suc:
  "i < n \<Longrightarrow> (\<forall>t. i \<le> t \<and> t < n \<longrightarrow> P t) = (P i \<and> (\<forall>t. Suc i \<le> t \<and> t < n \<longrightarrow> P t))"
proof (intro iffI conjI allI impI)
  fix t assume a: "P i \<and> (\<forall>t. Suc i \<le> t \<and> t < n \<longrightarrow> P t)" and t: "i \<le> t \<and> t < n"
  show "P t"
  proof (cases "t = i")
    case True
    then show ?thesis using a by simp
  next
    case False
    then have "Suc i \<le> t" using t by simp
    then show ?thesis using a t by simp
  qed
qed auto

lemma valid_tasks_mono: "valid_tasks n period wcet \<Longrightarrow> m \<le> n \<Longrightarrow> valid_tasks m period wcet"
  by (auto simp: valid_tasks_def)

lemma ct_tasks_step:
  assumes "i < unat numServices" "ct_seed wcet i 0 0 = Inr a0" "ct_iter period wcet i a0 = Inr R"
    "i < length deadline" "i < 2 ^ 31 - 1"
  shows "ct_tasks numServices period wcet deadline i =
    (if unat (deadline ! i) < R then Inr False
     else ct_tasks numServices period wcet deadline (i + 1))"
  using assms by (subst ct_tasks.simps) (simp add: rd_def)

lemma ct_tasks_True:
  "valid_tasks (unat numServices) period wcet \<Longrightarrow> unat numServices \<le> length deadline \<Longrightarrow>
   (ct_tasks numServices period wcet deadline i = Inr True) =
   (\<forall>t. i \<le> t \<and> t < unat numServices \<longrightarrow> ct_pass period wcet deadline t)"
proof (induction numServices period wcet deadline i rule: ct_tasks.induct)
  case (1 numServices period wcet deadline i)
  show ?case
  proof (cases "i < unat numServices")
    case False
    then show ?thesis by (subst ct_tasks.simps) auto
  next
    case True
    have v: "valid_tasks (Suc i) period wcet"
      using "1.prems"(1) True by (auto intro: valid_tasks_mono)
    have im: "i < 2 ^ 31 - 1" using valid_tasks_loop [OF v] by simp
    have ld: "i < length deadline" using True "1.prems"(2) by simp
    have rdd: "rd deadline i = Inr (unat (deadline ! i))" using ld by (simp add: rd_def)
    show ?thesis
    proof (cases "ct_pass period wcet deadline i")
      case pass: True
      then obtain R where fp: "rt_fixed_point period wcet i R" and le: "R \<le> unat (deadline ! i)"
        by (auto simp: ct_pass_def)
      have "unat (deadline ! i) < 2 ^ 32" using rd_lt [OF rdd] .
      then have lt: "R < 2 ^ 32" using le by simp
      note run = ct_task_fixed [OF v fp lt]
      have nd: "\<not> unat (deadline ! i) < R" using le by simp
      have "ct_tasks numServices period wcet deadline i =
          ct_tasks numServices period wcet deadline (i + 1)"
        using ct_tasks_step [OF True conjunct1 [OF run] conjunct2 [OF run] ld im] nd by simp
      moreover have "(ct_tasks numServices period wcet deadline (i + 1) = Inr True) =
          (\<forall>t. i + 1 \<le> t \<and> t < unat numServices \<longrightarrow> ct_pass period wcet deadline t)"
        by (rule "1.IH" [OF True conjunct1 [OF run] conjunct2 [OF run] rdd nd im "1.prems"])
      moreover have "(\<forall>t. i \<le> t \<and> t < unat numServices \<longrightarrow> ct_pass period wcet deadline t) =
          (\<forall>t. i + 1 \<le> t \<and> t < unat numServices \<longrightarrow> ct_pass period wcet deadline t)"
        using pass all_from_Suc [OF True, of "ct_pass period wcet deadline"] by simp
      ultimately show ?thesis by simp
    next
      case fail: False
      have "ct_tasks numServices period wcet deadline i \<noteq> Inr True"
      proof
        assume t: "ct_tasks numServices period wcet deadline i = Inr True"
        then obtain a0 R where s: "ct_seed wcet i 0 0 = Inr a0"
          and it: "ct_iter period wcet i a0 = Inr R"
          using True by (subst (asm) ct_tasks.simps) (auto split: sum.splits)
        from t ct_tasks_step [OF True s it ld im] have "\<not> unat (deadline ! i) < R"
          by (auto split: if_splits)
        with ct_task_Inr [OF v s it] fail show False by (auto simp: ct_pass_def)
      qed
      then show ?thesis using fail True by auto
    qed
  qed
qed

lemma ct_tasks_False:
  assumes N: "i < unat numServices" and v: "valid_tasks (Suc i) period wcet"
    and ld: "i < length deadline"
    and fp: "rt_fixed_point period wcet i R" and miss: "unat (deadline ! i) < R" and lt: "R < 2 ^ 32"
  shows "i0 + n = i \<Longrightarrow> (\<forall>t. i0 \<le> t \<and> t < i \<longrightarrow> ct_pass period wcet deadline t) \<Longrightarrow>
    ct_tasks numServices period wcet deadline i0 = Inr False"
proof (induction n arbitrary: i0)
  case 0
  then have "i0 = i" by simp
  note run = ct_task_fixed [OF v fp lt]
  have im: "i < 2 ^ 31 - 1" using valid_tasks_loop [OF v] by simp
  show ?case
    using ct_tasks_step [OF N conjunct1 [OF run] conjunct2 [OF run] ld im] miss \<open>i0 = i\<close> by simp
next
  case (Suc n)
  then have i0: "i0 < i" by simp
  have v0: "valid_tasks (Suc i0) period wcet" using v i0 by (auto intro: valid_tasks_mono)
  have im0: "i0 < 2 ^ 31 - 1" using valid_tasks_loop [OF v0] by simp
  have ld0: "i0 < length deadline" using ld i0 by simp
  have N0: "i0 < unat numServices" using N i0 by simp
  from Suc.prems(2) i0 obtain R0 where fp0: "rt_fixed_point period wcet i0 R0"
    and le: "R0 \<le> unat (deadline ! i0)" by (auto simp: ct_pass_def)
  have "unat (deadline ! i0) < 2 ^ 32" using rd_lt [of deadline i0] ld0 by (simp add: rd_def)
  then have lt0: "R0 < 2 ^ 32" using le by simp
  note run = ct_task_fixed [OF v0 fp0 lt0]
  have "ct_tasks numServices period wcet deadline i0 =
      ct_tasks numServices period wcet deadline (i0 + 1)"
    using ct_tasks_step [OF N0 conjunct1 [OF run] conjunct2 [OF run] ld0 im0] le by simp
  moreover have "ct_tasks numServices period wcet deadline (i0 + 1) = Inr False"
    using Suc.prems by (intro Suc.IH) auto
  ultimately show ?case by simp
qed

text \<open>
  When every task's iteration has a fixed point below \<open>2 ^ 32\<close> the run has no undefined step
  and the verdict is decided by the fixed points.
\<close>

lemma ct_verdict:
  assumes v: "valid_tasks (unat numServices) period wcet"
    and ld: "unat numServices \<le> length deadline"
    and fps: "\<forall>i<unat numServices. \<exists>R. rt_fixed_point period wcet i R \<and> R < 2 ^ 32"
  shows "ct_tasks numServices period wcet deadline 0 =
    Inr (\<forall>i<unat numServices. ct_pass period wcet deadline i)"
proof (cases "\<forall>i<unat numServices. ct_pass period wcet deadline i")
  case True
  then show ?thesis using ct_tasks_True [OF v ld, of 0] by simp
next
  case False
  define i where "i = (LEAST i. i < unat numServices \<and> \<not> ct_pass period wcet deadline i)"
  from False have ex: "\<exists>i. i < unat numServices \<and> \<not> ct_pass period wcet deadline i" by simp
  then have i: "i < unat numServices \<and> \<not> ct_pass period wcet deadline i"
    unfolding i_def by (rule LeastI_ex)
  have before: "ct_pass period wcet deadline t" if "t < i" for t
  proof (rule ccontr)
    assume "\<not> ct_pass period wcet deadline t"
    then have "t < unat numServices \<and> \<not> ct_pass period wcet deadline t" using that i by simp
    then have "i \<le> t" unfolding i_def by (rule Least_le)
    then show False using that by simp
  qed
  from fps i obtain R where fp: "rt_fixed_point period wcet i R" and lt: "R < 2 ^ 32" by blast
  have miss: "unat (deadline ! i) < R" using i fp by (auto simp: ct_pass_def)
  have vi: "valid_tasks (Suc i) period wcet" using i by (intro valid_tasks_mono [OF v]) simp
  have "ct_tasks numServices period wcet deadline 0 = Inr False"
  proof (rule ct_tasks_False [where i = i and n = i and R = R])
    show "i < unat numServices" using i by simp
    show "i < length deadline" using i ld by simp
    show "\<forall>t. 0 \<le> t \<and> t < i \<longrightarrow> ct_pass period wcet deadline t" using before by simp
  qed (use vi fp miss lt in simp_all)
  then show ?thesis using False by simp
qed


lemma ct_passI:
  "rt_seq period wcet i k = R \<Longrightarrow> rt_step period wcet i R = R \<Longrightarrow> R \<le> unat (deadline ! i) \<Longrightarrow>
   ct_pass period wcet deadline i"
  unfolding ct_pass_def rt_fixed_point_def by auto

lemma rt_fixed_pointI:
  "rt_seq period wcet i k = R \<Longrightarrow> rt_step period wcet i R = R \<Longrightarrow> rt_fixed_point period wcet i R"
  unfolding rt_fixed_point_def by auto

lemma rt_seq_numeral:
  "rt_seq period wcet i (numeral k) = rt_step period wcet i (rt_seq period wcet i (pred_numeral k))"
  by (simp add: numeral_eq_Suc)

lemma valid_tasks_0: "valid_tasks 0 period wcet"
  by (simp add: valid_tasks_def)

lemma valid_tasks_Suc:
  "valid_tasks (Suc n) period wcet \<longleftrightarrow>
   valid_tasks n period wcet \<and> n < 2 ^ 31 - 1 \<and> n < length period \<and> n < length wcet \<and>
   period ! n \<noteq> 0 \<and> wcet ! n \<noteq> 0"
  unfolding valid_tasks_def by (auto simp: less_Suc_eq)

section \<open>Claims\<close>

subsection \<open>Completion-time test and fixed points\<close>

text \<open>
  Claim C1, as the code has it. Take a task set of \<open>numServices\<close> tasks, fewer than
  \<open>2 ^ 31\<close>, with strictly positive periods and execution times (\<open>valid_tasks\<close>), and for
  task \<open>i\<close> the iteration seeded with \<open>\<Sum>\<^sub>j\<^sub>\<le>\<^sub>i wcet\<^sub>j\<close> and stepped by
  \<open>wcet\<^sub>i + \<Sum>\<^sub>j\<^sub><\<^sub>i \<lceil>a / period\<^sub>j\<rceil> * wcet\<^sub>j\<close>.
  \<^item> When every task's iteration reaches a fixed point below \<open>2 ^ 32\<close>, the range of the
    \<^verbatim>\<open>unsigned int\<close> accumulators, \<open>completion_time_feasibility\<close> returns a verdict: TRUE
    if and only if every fixed point is at most the task's deadline, FALSE otherwise.
  \<^item> When every task's iteration reaches a fixed point that is at most its deadline, the
    verdict is TRUE.
  \<^item> FALSE is returned as soon as one task's fixed point, below \<open>2 ^ 32\<close>, exceeds that
    task's deadline, the tasks before it passing, whatever follows task \<open>i\<close> in the arrays:
    only the first \<open>i + 1\<close> entries have to be there.

  Nothing is stated for a task set in which an iteration has no fixed point below
  \<open>2 ^ 32\<close>: there the code converts a \<^verbatim>\<open>double\<close> of \<open>2 ^ 32\<close> or more to
  \<^verbatim>\<open>unsigned int\<close>, which is undefined.
\<close>

theorem completion_time_feasibility_fixed_points:
  "(valid_tasks (unat numServices) period wcet \<and> unat numServices \<le> length deadline \<and>
      (\<forall>i<unat numServices. \<exists>R. rt_fixed_point period wcet i R \<and> R < 2 ^ 32) \<longrightarrow>
      ((completion_time_feasibility numServices period wcet deadline = Inr True) =
         (\<forall>i<unat numServices. ct_pass period wcet deadline i)) \<and>
      ((completion_time_feasibility numServices period wcet deadline = Inr False) =
         (\<not> (\<forall>i<unat numServices. ct_pass period wcet deadline i))))
   \<and> (valid_tasks (unat numServices) period wcet \<and> unat numServices \<le> length deadline \<and>
      (\<forall>i<unat numServices. ct_pass period wcet deadline i) \<longrightarrow>
      completion_time_feasibility numServices period wcet deadline = Inr True)
   \<and> (i < unat numServices \<and> valid_tasks (Suc i) period wcet \<and> i < length deadline \<and>
      (\<forall>t<i. ct_pass period wcet deadline t) \<and>
      rt_fixed_point period wcet i R \<and> unat (deadline ! i) < R \<and> R < 2 ^ 32 \<longrightarrow>
      completion_time_feasibility numServices period wcet deadline = Inr False)"
proof (intro conjI impI)
  assume a: "valid_tasks (unat numServices) period wcet \<and> unat numServices \<le> length deadline \<and>
      (\<forall>i<unat numServices. \<exists>R. rt_fixed_point period wcet i R \<and> R < 2 ^ 32)"
  then have r: "completion_time_feasibility numServices period wcet deadline =
      Inr (\<forall>i<unat numServices. ct_pass period wcet deadline i)"
    unfolding completion_time_feasibility_def by (intro ct_verdict) simp_all
  show "(completion_time_feasibility numServices period wcet deadline = Inr True) =
      (\<forall>i<unat numServices. ct_pass period wcet deadline i)"
    unfolding r by simp
  show "(completion_time_feasibility numServices period wcet deadline = Inr False) =
      (\<not> (\<forall>i<unat numServices. ct_pass period wcet deadline i))"
    unfolding r by simp
next
  assume "valid_tasks (unat numServices) period wcet \<and> unat numServices \<le> length deadline \<and>
      (\<forall>i<unat numServices. ct_pass period wcet deadline i)"
  then show "completion_time_feasibility numServices period wcet deadline = Inr True"
    unfolding completion_time_feasibility_def by (simp add: ct_tasks_True)
next
  assume a: "i < unat numServices \<and> valid_tasks (Suc i) period wcet \<and> i < length deadline \<and>
      (\<forall>t<i. ct_pass period wcet deadline t) \<and>
      rt_fixed_point period wcet i R \<and> unat (deadline ! i) < R \<and> R < 2 ^ 32"
  then have "\<forall>t. 0 \<le> t \<and> t < i \<longrightarrow> ct_pass period wcet deadline t" by simp
  with a show "completion_time_feasibility numServices period wcet deadline = Inr False"
    unfolding completion_time_feasibility_def
    using ct_tasks_False [of i numServices period wcet deadline R 0 i] by simp
qed

text \<open>
  The theorem at work: the two tasks \<open>(T, C) = (2, 1), (5, 1)\<close> have the fixed points 1 and 2
  and pass; the second of \<open>(2, 1), (5, 3)\<close> has the fixed point 6 beyond its deadline 5
  and the verdict is FALSE; and the second of \<open>(2, 1), (2, 2)\<close> has the
  fixed point 4 beyond its deadline 2, where FALSE is returned although \<^verbatim>\<open>numServices\<close>
  announces a third task the arrays do not hold.
\<close>

theorem completion_time_feasibility_fixed_points_witness:
  "completion_time_feasibility 2 [2, 5] [1, 1] [2, 5] = Inr True
   \<and> completion_time_feasibility 2 [2, 5] [1, 3] [2, 5] = Inr False
   \<and> completion_time_feasibility 3 [2, 2] [1, 2] [2, 2] = Inr False"
proof (intro conjI)
  have v: "valid_tasks 2 [2, 5] [1, 1]"
    unfolding numeral_2_eq_2 by (simp add: valid_tasks_Suc valid_tasks_0)
  have p: "\<forall>i<2. ct_pass [2, 5] [1, 1] [2, 5] i"
  proof (intro allI impI)
    fix i :: nat assume "i < 2"
    then consider "i = 0" | "i = 1" by linarith
    then show "ct_pass [2, 5] [1, 1] [2, 5] i"
    proof cases
      case 1
      then show ?thesis
        by (intro ct_passI [where k = 0 and R = 1]) (simp_all add: rt_seed_def rt_step_def ceil_q_def)
    next
      case 2
      then show ?thesis
        by (intro ct_passI [where k = 0 and R = 2]) (simp_all add: rt_seed_def rt_step_def ceil_q_def)
    qed
  qed
  show "completion_time_feasibility 2 [2, 5] [1, 1] [2, 5] = Inr True"
    using completion_time_feasibility_fixed_points [of 2 "[2, 5]" "[1, 1]" "[2, 5]"] v p
    by simp
next
  have v: "valid_tasks 2 [2, 5] [1, 3]"
    unfolding numeral_2_eq_2 by (simp add: valid_tasks_Suc valid_tasks_0)
  have f0: "rt_fixed_point [2, 5] [1, 3] 0 1"
    by (rule rt_fixed_pointI [where k = 0]) (simp_all add: rt_seed_def rt_step_def ceil_q_def)
  have f1: "rt_fixed_point [2, 5] [1, 3] 1 6"
    by (rule rt_fixed_pointI [where k = 2])
       (simp_all add: rt_seq_numeral rt_seed_def rt_step_def ceil_q_def)
  have fps: "\<forall>i<2. \<exists>R. rt_fixed_point [2, 5] [1, 3] i R \<and> R < 2 ^ 32"
  proof (intro allI impI)
    fix i :: nat assume "i < 2"
    then consider "i = 0" | "i = 1" by linarith
    then show "\<exists>R. rt_fixed_point [2, 5] [1, 3] i R \<and> R < 2 ^ 32"
    proof cases
      case 1
      then show ?thesis using f0 by (intro exI [of _ 1]) simp
    next
      case 2
      then show ?thesis using f1 by (intro exI [of _ 6]) simp
    qed
  qed
  have "\<not> ct_pass [2, 5] [1, 3] [2, 5] 1"
  proof
    assume "ct_pass [2, 5] [1, 3] [2, 5] 1"
    then obtain R where R: "rt_fixed_point [2, 5] [1, 3] 1 R" and le: "R \<le> unat ([2, 5 :: u32] ! 1)"
      by (auto simp: ct_pass_def)
    have "6 = R" by (rule rt_fixed_point_unique [OF f1 R])
    then show False using le by simp
  qed
  then have np: "\<not> (\<forall>i<2. ct_pass [2, 5] [1, 3] [2, 5] i)"
    by (auto intro!: exI [of _ 1])
  show "completion_time_feasibility 2 [2, 5] [1, 3] [2, 5] = Inr False"
    using completion_time_feasibility_fixed_points [of 2 "[2, 5]" "[1, 3]" "[2, 5]"] v fps np
    by simp
next
  have v: "valid_tasks (Suc 1) [2, 2] [1, 2]"
    by (simp add: valid_tasks_Suc valid_tasks_0)
  have fp: "rt_fixed_point [2, 2] [1, 2] 1 4"
    by (rule rt_fixed_pointI [where k = 1]) (simp_all add: rt_seed_def rt_step_def ceil_q_def)
  have p: "\<forall>t<Suc 0. ct_pass [2, 2] [1, 2] [2, 2] t"
    by (auto intro!: ct_passI [where k = 0 and R = 1] simp: rt_seed_def rt_step_def ceil_q_def)
  show "completion_time_feasibility 3 [2, 2] [1, 2] [2, 2] = Inr False"
    using completion_time_feasibility_fixed_points [of 3 "[2, 2]" "[1, 2]" "[2, 2]" 1 4] v fp p
    by simp
qed

text \<open>
  Claim C1 as stated has no bound on the fixed point. With periods and deadlines
  \<open>2 ^ 32 - 1\<close> and execution times \<open>2 ^ 31\<close>, the first task passes and the iteration of
  the second reaches the fixed point \<open>3 * 2 ^ 31\<close>, beyond its deadline; in the code the seed
  \<open>2 ^ 31 + 2 ^ 31\<close> wraps to 0 and the second pass converts \<open>2 ^ 32\<close> to
  \<^verbatim>\<open>unsigned int\<close>: no FALSE is returned. With periods \<open>1, 2\<close>, execution times \<open>65536, 1\<close>
  and deadlines \<open>2 ^ 32 - 1\<close> the iteration of the second task has no fixed point at all
  (a step turns \<open>a\<close> into \<open>1 + 65536 * a\<close>); the code converts \<open>1 + 65536 * 65537\<close> to
  \<^verbatim>\<open>unsigned int\<close> and does not return FALSE either: where that conversion keeps the low
  32 bits, \<^verbatim>\<open>anext\<close> is 65537, equal to \<^verbatim>\<open>an\<close>, and the verdict is TRUE.
\<close>

theorem completion_time_feasibility_large_fixed_point:
  "valid_tasks 2 [4294967295, 4294967295] [2147483648, 2147483648]
   \<and> ct_pass [4294967295, 4294967295] [2147483648, 2147483648] [4294967295, 4294967295] 0
   \<and> rt_fixed_point [4294967295, 4294967295] [2147483648, 2147483648] 1 6442450944
   \<and> unat ([4294967295, 4294967295 :: u32] ! 1) < 6442450944
   \<and> completion_time_feasibility 2 [4294967295, 4294967295] [2147483648, 2147483648]
         [4294967295, 4294967295] = Inl ConvRange
   \<and> valid_tasks 2 [1, 2] [65536, 1]
   \<and> \<not> ct_pass [1, 2] [65536, 1] [4294967295, 4294967295] 1
   \<and> completion_time_feasibility 2 [1, 2] [65536, 1] [4294967295, 4294967295] = Inl ConvRange"
proof (intro conjI)
  show "valid_tasks 2 [4294967295, 4294967295] [2147483648, 2147483648]"
    unfolding numeral_2_eq_2 by (simp add: valid_tasks_Suc valid_tasks_0)
  show "ct_pass [4294967295, 4294967295] [2147483648, 2147483648] [4294967295, 4294967295] 0"
    by (rule ct_passI [where k = 0 and R = 2147483648]) (simp_all add: rt_seed_def rt_step_def ceil_q_def)
  show "rt_fixed_point [4294967295, 4294967295] [2147483648, 2147483648] 1 6442450944"
    by (rule rt_fixed_pointI [where k = 1]) (simp_all add: rt_seed_def rt_step_def ceil_q_def)
  show "unat ([4294967295, 4294967295 :: u32] ! 1) < 6442450944"
    by simp
  show "completion_time_feasibility 2 [4294967295, 4294967295] [2147483648, 2147483648]
         [4294967295, 4294967295] = Inl ConvRange"
    by (simp add: completion_time_feasibility_def ct_tasks.simps ct_seed.simps ct_iter.simps
        ct_next_def ct_sum.simps rd_def add_conv_def ceil_div_def)
  show "valid_tasks 2 [1, 2] [65536, 1]"
    unfolding numeral_2_eq_2 by (simp add: valid_tasks_Suc valid_tasks_0)
  show "\<not> ct_pass [1, 2] [65536, 1] [4294967295, 4294967295] 1"
  proof
    assume "ct_pass [1, 2] [65536, 1] [4294967295, 4294967295] 1"
    then obtain R where "rt_fixed_point [1, 2] [65536, 1] 1 R" by (auto simp: ct_pass_def)
    then have "rt_step [1, 2] [65536, 1] 1 R = R" by (simp add: rt_fixed_point_iff)
    then show False by (simp add: rt_step_def ceil_q_def)
  qed
  show "completion_time_feasibility 2 [1, 2] [65536, 1] [4294967295, 4294967295] = Inl ConvRange"
    by (simp add: completion_time_feasibility_def ct_tasks.simps ct_seed.simps ct_iter.simps
        ct_next_def ct_sum.simps rd_def add_conv_def ceil_div_def)
qed

subsection \<open>Termination of the response-time iteration\<close>

text \<open>
  The loop has one exit, \<^verbatim>\<open>if (anext == an) break;\<close>: the deadline is compared after the
  loop only. For the periods \<open>1, 2\<close> and execution times \<open>1, 1\<close> the first task uses the
  whole processor; a pass of the second task's loop turns \<^verbatim>\<open>an\<close> into \<^verbatim>\<open>an + 1\<close>, so no
  fixed point comes and the iterates run through all of \<^verbatim>\<open>unsigned int\<close>.
\<close>

lemma ct_next_overload:
  "ct_next [1, 2] [1, 1] (Suc 0) a = (if Suc a < 2 ^ 32 then Inr (Suc a) else Inl ConvRange)"
  by (simp add: ct_next_def ct_sum.simps rd_def add_conv_def ceil_div_def)

lemma ct_iter_overload: "a < 2 ^ 32 \<Longrightarrow> ct_iter [1, 2] [1, 1] (Suc 0) a = Inl ConvRange"
proof (induction a rule: measure_induct_rule [of "\<lambda>a. 2 ^ 32 - a"])
  case (less a)
  show ?case
  proof (cases "Suc a < 2 ^ 32")
    case True
    then have "ct_iter [1, 2] [1, 1] (Suc 0) (Suc a) = Inl ConvRange"
      using less.prems by (intro less.IH) simp_all
    then show ?thesis using True by (subst ct_iter.simps) (simp add: ct_next_overload)
  next
    case False
    then show ?thesis by (subst ct_iter.simps) (simp add: ct_next_overload)
  qed
qed

lemma ct_overload_eval: "completion_time_feasibility 2 [1, 2] [1, 1] [1, 2] = Inl ConvRange"
proof -
  have "ct_seed [1, 1] 0 0 0 = Inr 1" "ct_seed [1, 1] (Suc 0) 0 0 = Inr 2"
    by (simp_all add: ct_seed.simps rd_def)
  moreover have "ct_iter [1, 2] [1, 1] 0 1 = Inr 1"
    by (simp add: ct_iter.simps ct_next_def ct_sum.simps rd_def)
  moreover have "ct_iter [1, 2] [1, 1] (Suc 0) 2 = Inl ConvRange"
    by (rule ct_iter_overload) simp
  ultimately show ?thesis
    by (simp add: completion_time_feasibility_def ct_tasks.simps rd_def)
qed

text \<open>
  Claim C8 says that the iteration stops as soon as the iterate exceeds the deadline and
  that the function returns on every task set. On two tasks with periods \<open>1, 2\<close>,
  execution times \<open>1, 1\<close> and deadlines \<open>1, 2\<close> (utilization 1.5) the code passes the
  deadline 2 at the first pass (\<^verbatim>\<open>an\<close> 2 gives \<^verbatim>\<open>anext\<close> 3) and goes on until \<open>2 ^ 32\<close> is
  converted to \<^verbatim>\<open>unsigned int\<close>, which is undefined: it never returns FALSE.
\<close>

theorem completion_time_feasibility_overload:
  "ct_next [1, 2] [1, 1] 1 2 = Inr 3
   \<and> completion_time_feasibility 2 [1, 2] [1, 1] [1, 2] = Inl ConvRange"
  using ct_overload_eval by (simp add: ct_next_overload)

subsection \<open>Scheduling-point test and scheduling points\<close>

text \<open>
  The specification's side of the scheduling-point test: the demand of tasks \<open>0..i\<close> by the
  instant \<open>t\<close>, the instant \<open>l * period\<^sub>k\<close>, the scheduling points of task \<open>i\<close>
  (\<open>k \<le> i\<close> and \<open>1 \<le> l \<le> \<lfloor>period\<^sub>i / period\<^sub>k\<rfloor>\<close>), "the demand by the point is at most the
  point" and "task \<open>i\<close> has such a point". \<open>sp_first\<close> adds the order of the search: the
  point is the first that fits, \<open>k\<close> ascending and then \<open>l\<close> ascending, and the demand at every
  point before it is below \<open>2 ^ 32\<close>, the range of \<^verbatim>\<open>temp\<close>.
\<close>

definition sp_demand_at :: "u32 list \<Rightarrow> u32 list \<Rightarrow> nat \<Rightarrow> nat \<Rightarrow> nat" where
  "sp_demand_at period wcet i t =
     (\<Sum>j = 0..<Suc i. unat (wcet ! j) * ceil_q t (unat (period ! j)))"

definition sp_time :: "u32 list \<Rightarrow> nat \<Rightarrow> nat \<Rightarrow> nat" where
  "sp_time period k l = l * unat (period ! k)"

definition sp_point :: "u32 list \<Rightarrow> nat \<Rightarrow> nat \<Rightarrow> nat \<Rightarrow> bool" where
  "sp_point period i k l \<longleftrightarrow>
     k \<le> i \<and> 1 \<le> l \<and> l \<le> floor_q (unat (period ! i)) (unat (period ! k))"

definition sp_fits :: "u32 list \<Rightarrow> u32 list \<Rightarrow> nat \<Rightarrow> nat \<Rightarrow> nat \<Rightarrow> bool" where
  "sp_fits period wcet i k l \<longleftrightarrow>
     sp_point period i k l \<and> sp_demand_at period wcet i (sp_time period k l) \<le> sp_time period k l"

definition sp_pass :: "u32 list \<Rightarrow> u32 list \<Rightarrow> nat \<Rightarrow> bool" where
  "sp_pass period wcet i \<longleftrightarrow> (\<exists>k l. sp_fits period wcet i k l)"

definition sp_first :: "u32 list \<Rightarrow> u32 list \<Rightarrow> nat \<Rightarrow> nat \<Rightarrow> nat \<Rightarrow> bool" where
  "sp_first period wcet i k l \<longleftrightarrow>
     sp_fits period wcet i k l \<and>
     (\<forall>k' l'. sp_point period i k' l' \<and> (k' < k \<or> (k' = k \<and> l' < l)) \<longrightarrow>
        sp_demand_at period wcet i (sp_time period k' l') < 2 ^ 32 \<and> \<not> sp_fits period wcet i k' l')"

lemma sp_point_div:
  "sp_point period i k l \<longleftrightarrow> k \<le> i \<and> 1 \<le> l \<and> l \<le> unat (period ! i) div unat (period ! k)"
  by (simp add: sp_point_def floor_q_eq)

lemma sp_demand_at_ceil_div:
  "\<forall>j\<le>i. period ! j \<noteq> 0 \<Longrightarrow>
   sp_demand_at period wcet i t = (\<Sum>j = 0..<Suc i. unat (wcet ! j) * ceil_div t (unat (period ! j)))"
  unfolding sp_demand_at_def by (intro sum.cong refl) (simp add: ceil_div_eq unat_gt_0)

lemma sp_demand_eq:
  "i < length period \<Longrightarrow> i < length wcet \<Longrightarrow> \<forall>j\<le>i. period ! j \<noteq> 0 \<Longrightarrow> i < 2 ^ 31 - 1 \<Longrightarrow>
   x < 2 ^ 32 \<Longrightarrow>
   sp_demand period wcet i t j x =
     (if x + (\<Sum>n = j..<Suc i. unat (wcet ! n) * ceil_div t (unat (period ! n))) < 2 ^ 32
      then Inr (x + (\<Sum>n = j..<Suc i. unat (wcet ! n) * ceil_div t (unat (period ! n))))
      else Inl ConvRange)"
proof (induction period wcet i t j x rule: sp_demand.induct)
  case (1 period wcet i t j temp)
  let ?f = "\<lambda>n. unat (wcet ! n) * ceil_div t (unat (period ! n))"
  show ?case
  proof (cases "j \<le> i")
    case False
    then show ?thesis using "1.prems" by (simp add: sp_demand.simps)
  next
    case True
    have rp: "rd period j = Inr (unat (period ! j))" and rw: "rd wcet j = Inr (unat (wcet ! j))"
      using True "1.prems" by (simp_all add: rd_def)
    have p0: "unat (period ! j) \<noteq> 0" using True "1.prems" by (simp add: unat_eq_0)
    have jm: "j < 2 ^ 31 - 1" using True "1.prems"(4) by simp
    have split: "(\<Sum>n = j..<Suc i. ?f n) = ?f j + (\<Sum>n = j + 1..<Suc i. ?f n)"
      using True sum.atLeast_Suc_lessThan [of j "Suc i" ?f] by simp
    show ?thesis
    proof (cases "temp + ?f j < 2 ^ 32")
      case False
      then have "add_conv temp (?f j) = Inl ConvRange" by (simp add: add_conv_def)
      moreover have "\<not> temp + (\<Sum>n = j..<Suc i. ?f n) < 2 ^ 32" using False split by simp
      ultimately show ?thesis using True rp rw p0 by (subst sp_demand.simps) simp
    next
      case lt: True
      then have ac: "add_conv temp (?f j) = Inr (temp + ?f j)" by (simp add: add_conv_def)
      show ?thesis
        using "1.IH" [OF True rw rp p0 ac jm "1.prems"(1,2,3,4) lt] True rp rw p0 ac jm split
        by (subst sp_demand.simps) (simp add: add.assoc)
    qed
  qed
qed

lemma valid_tasks_nth:
  "valid_tasks (Suc i) period wcet \<Longrightarrow> j \<le> i \<Longrightarrow>
   j < length period \<and> j < length wcet \<and> 0 < unat (period ! j) \<and> 0 < unat (wcet ! j)"
  by (auto simp: valid_tasks_def unat_gt_0)

lemma sp_demand_start:
  assumes v: "valid_tasks (Suc i) period wcet"
  shows "sp_demand period wcet i t 0 0 =
     (if sp_demand_at period wcet i t < 2 ^ 32 then Inr (sp_demand_at period wcet i t)
      else Inl ConvRange)"
proof -
  have p: "\<forall>j\<le>i. period ! j \<noteq> 0" using v by (auto simp: valid_tasks_def)
  have "i < length period" "i < length wcet" using valid_tasks_nth [OF v, of i] by simp_all
  moreover have "i < 2 ^ 31 - 1" using valid_tasks_loop [OF v] by simp
  ultimately show ?thesis
    using sp_demand_eq [OF _ _ p, of wcet 0 t 0] by (simp add: sp_demand_at_ceil_div [OF p])
qed

lemma sp_points_unfold:
  assumes v: "valid_tasks (Suc i) period wcet" and k: "k \<le> i"
  shows "sp_points period wcet i k l =
    (if l \<le> unat (period ! i) div unat (period ! k) then
       if sp_demand_at period wcet i (sp_time period k l) < 2 ^ 32 then
         if sp_demand_at period wcet i (sp_time period k l) \<le> sp_time period k l then Inr True
         else if l < 2 ^ 31 - 1 then sp_points period wcet i k (l + 1)
         else Inl IntOverflow
       else Inl ConvRange
     else Inr False)"
proof -
  note ni = valid_tasks_nth [OF v, of i] and nk = valid_tasks_nth [OF v k]
  have ri: "rd period i = Inr (unat (period ! i))" and rk: "rd period k = Inr (unat (period ! k))"
    using ni nk by (simp_all add: rd_def)
  have k0: "unat (period ! k) \<noteq> 0" using nk by simp
  show ?thesis
  proof (cases "l \<le> unat (period ! i) div unat (period ! k)")
    case False
    then show ?thesis using ri rk k0 by (subst sp_points.simps) simp
  next
    case True
    then have "l * unat (period ! k) \<le> unat (period ! i)"
      using k0 by (simp add: less_eq_div_iff_mult_less_eq)
    moreover have "unat (period ! i) < 2 ^ 32" using rd_lt [OF ri] .
    ultimately have "(l * unat (period ! k)) mod 2 ^ 32 = sp_time period k l"
      by (simp add: sp_time_def)
    then show ?thesis using True ri rk k0
      by (subst sp_points.simps) (simp add: sp_demand_start [OF v])
  qed
qed


lemma sp_points_hit:
  assumes v: "valid_tasks (Suc i) period wcet" and k: "k \<le> i"
    and l': "l' \<le> unat (period ! i) div unat (period ! k)"
    and fit: "sp_demand_at period wcet i (sp_time period k l') \<le> sp_time period k l'"
    and small: "l' \<le> 2 ^ 31 - 1"
  shows "l \<le> l' \<Longrightarrow>
    \<forall>n. l \<le> n \<and> n < l' \<longrightarrow> sp_demand_at period wcet i (sp_time period k n) < 2 ^ 32 \<Longrightarrow>
    sp_points period wcet i k l = Inr True"
proof (induction l rule: measure_induct_rule [of "\<lambda>l. l' - l"])
  case (less l)
  note u = sp_points_unfold [OF v k, of l]
  have inb: "l \<le> unat (period ! i) div unat (period ! k)" using less.prems(1) l' by simp
  show ?case
  proof (cases "l = l'")
    case True
    have "sp_time period k l' \<le> unat (period ! i)"
      using l' valid_tasks_nth [OF v k]
      by (simp add: sp_time_def less_eq_div_iff_mult_less_eq)
    moreover have "unat (period ! i) < 2 ^ 32"
      using rd_lt [of period i] valid_tasks_nth [OF v, of i] by (simp add: rd_def)
    ultimately have "sp_demand_at period wcet i (sp_time period k l') < 2 ^ 32" using fit by simp
    then show ?thesis using u inb fit True by simp
  next
    case False
    then have ll: "l < l'" using less.prems(1) by simp
    then have lt: "sp_demand_at period wcet i (sp_time period k l) < 2 ^ 32"
      using less.prems(2) by simp
    have "sp_points period wcet i k (l + 1) = Inr True"
      using ll less.prems(2) by (intro less.IH) auto
    moreover have "l < 2 ^ 31 - 1" using ll small by simp
    ultimately show ?thesis using u inb lt by simp
  qed
qed

lemma sp_points_miss:
  assumes v: "valid_tasks (Suc i) period wcet" and k: "k \<le> i"
    and small: "unat (period ! i) div unat (period ! k) < 2 ^ 31 - 1"
  shows "\<forall>n. l \<le> n \<and> n \<le> unat (period ! i) div unat (period ! k) \<longrightarrow>
      sp_demand_at period wcet i (sp_time period k n) < 2 ^ 32 \<and>
      \<not> sp_demand_at period wcet i (sp_time period k n) \<le> sp_time period k n \<Longrightarrow>
    sp_points period wcet i k l = Inr False"
proof (induction l rule: measure_induct_rule [of "\<lambda>l. Suc (unat (period ! i) div unat (period ! k)) - l"])
  case (less l)
  note u = sp_points_unfold [OF v k, of l]
  show ?case
  proof (cases "l \<le> unat (period ! i) div unat (period ! k)")
    case False
    then show ?thesis using u by simp
  next
    case True
    then have "sp_points period wcet i k (l + 1) = Inr False"
      using less.prems by (intro less.IH) auto
    moreover have "l < 2 ^ 31 - 1" using True small by simp
    ultimately show ?thesis using u True less.prems by simp
  qed
qed


lemma sp_demand_at_two:
  assumes "k < i"
  shows "unat (wcet ! k) * ceil_q t (unat (period ! k))
       + unat (wcet ! i) * ceil_q t (unat (period ! i))
       \<le> sp_demand_at period wcet i t"
proof -
  let ?f = "\<lambda>j. unat (wcet ! j) * ceil_q t (unat (period ! j))"
  have "?f k \<le> (\<Sum>j = 0..<i. ?f j)"
    using assms by (intro member_le_sum) simp_all
  then show ?thesis by (simp add: sp_demand_at_def)
qed

lemma sp_demand_at_incr:
  assumes k: "k \<le> i" and st: "s \<le> t"
  shows "sp_demand_at period wcet i s
       + unat (wcet ! k) * (ceil_q t (unat (period ! k))
                          - ceil_q s (unat (period ! k)))
       \<le> sp_demand_at period wcet i t"
proof -
  let ?c = "\<lambda>j x. ceil_q x (unat (period ! j))"
  let ?d = "unat (wcet ! k) * (?c k t - ?c k s)"
  have c: "?c j s \<le> ?c j t" for j
    using st by (rule ceil_q_mono)
  have "unat (wcet ! j) * ?c j s + (if k = j then ?d else 0) \<le> unat (wcet ! j) * ?c j t" for j
  proof (cases "k = j")
    case True
    have "unat (wcet ! k) * ?c k s + ?d = unat (wcet ! k) * (?c k s + (?c k t - ?c k s))"
      by (simp only: distrib_left)
    also have "\<dots> = unat (wcet ! k) * ?c k t" using c [of k] by simp
    finally show ?thesis using True by simp
  next
    case False
    then show ?thesis using c [of j] by simp
  qed
  then have "(\<Sum>j = 0..<Suc i. unat (wcet ! j) * ?c j s + (if k = j then ?d else 0))
      \<le> (\<Sum>j = 0..<Suc i. unat (wcet ! j) * ?c j t)"
    by (intro sum_mono)
  moreover have "(\<Sum>j = 0..<Suc i. (if k = j then ?d else 0)) = ?d"
    using k by (subst sum.delta') simp_all
  ultimately show ?thesis
    unfolding sp_demand_at_def by (simp only: sum.distrib)
qed

lemma sp_fits_ratio_small:
  assumes v: "valid_tasks (Suc i) period wcet" and k: "k \<le> i"
    and big: "2 ^ 31 - 1 \<le> unat (period ! i) div unat (period ! k)"
    and none: "\<forall>l. 1 \<le> l \<and> l \<le> 2 ^ 31 - 1 \<longrightarrow>
       \<not> sp_demand_at period wcet i (sp_time period k l) \<le> sp_time period k l"
  shows "\<not> sp_fits period wcet i k' l'"
proof
  assume fits: "sp_fits period wcet i k' l'"
  define pk where "pk = unat (period ! k)"
  define pi' where "pi' = unat (period ! i)"
  define t where "t = sp_time period k' l'"
  let ?D = "sp_demand_at period wcet i"
  note nk = valid_tasks_nth [OF v k] and ni = valid_tasks_nth [OF v order_refl]
  have pk0: "0 < pk" using nk by (simp add: pk_def)
  have pilt: "pi' < 2 ^ 32" using rd_lt [of period i] ni by (simp add: rd_def pi'_def)
  have "(2 ^ 31 - 1) * pk \<le> pi'"
    using big pk0 by (simp add: less_eq_div_iff_mult_less_eq pk_def pi'_def)
  with pilt have pk2: "pk \<le> 2" by (cases "pk \<le> 2") auto
  have ki: "k < i"
  proof (rule ccontr)
    assume "\<not> k < i"
    with k have "k = i" by simp
    with big ni show False by simp
  qed
  from fits have pt: "k' \<le> i" "1 \<le> l'" "l' \<le> pi' div unat (period ! k')" and fit: "?D t \<le> t"
    by (simp_all add: sp_fits_def sp_point_div t_def pi'_def)
  note nk' = valid_tasks_nth [OF v pt(1)]
  have t1: "1 \<le> t" using pt(2) nk' by (simp add: t_def sp_time_def)
  have "t \<le> pi'" using pt(3) nk' by (simp add: t_def sp_time_def less_eq_div_iff_mult_less_eq)
  with pilt have tlt: "t < 2 ^ 32" by simp
  have ck: "ceil_q x (unat (period ! k)) = (x + pk - 1) div pk" for x
    using ceil_div_eq [OF pk0, of x] by (simp add: pk_def ceil_div_def)
  have "1 \<le> ceil_q t (unat (period ! i))" using ni t1 by (intro ceil_q_ge_1) simp_all
  then have a: "1 \<le> unat (wcet ! i) * ceil_q t (unat (period ! i))"
    using ni by (simp add: Suc_le_eq)
  have b: "(t + pk - 1) div pk \<le> unat (wcet ! k) * ceil_q t (unat (period ! k))"
    using nk by (simp add: ck)
  have c: "unat (wcet ! k) * ceil_q t (unat (period ! k))
      + unat (wcet ! i) * ceil_q t (unat (period ! i)) \<le> ?D t"
    by (rule sp_demand_at_two [OF ki])
  from a b c have two: "(t + pk - 1) div pk + 1 \<le> ?D t" by linarith
  consider "pk = 1" | "pk = 2" "even t" | "pk = 2" "odd t" using pk0 pk2 by linarith
  then show False
  proof cases
    case 1
    then show ?thesis using two fit by simp
  next
    case 2
    then obtain m where m: "t = m * 2" by (auto elim: evenE)
    then have "1 \<le> m \<and> m \<le> 2 ^ 31 - 1" using t1 tlt by simp
    with none have "\<not> ?D (sp_time period k m) \<le> sp_time period k m" by blast
    moreover have "sp_time period k m = t" using m 2 by (simp add: sp_time_def pk_def)
    ultimately show ?thesis using fit by simp
  next
    case 3
    then obtain m where m: "t = m * 2 + 1" by (auto elim: oddE)
    show ?thesis
    proof (cases "m = 0")
      case True
      then show ?thesis using two fit m 3 by simp
    next
      case False
      then have "1 \<le> m \<and> m \<le> 2 ^ 31 - 1" using m tlt by simp
      with none have "\<not> ?D (sp_time period k m) \<le> sp_time period k m" by blast
      moreover have tm: "sp_time period k m = m * 2" using 3 by (simp add: sp_time_def pk_def)
      ultimately have "m * 2 + 1 \<le> ?D (m * 2)" by simp
      moreover have "?D (m * 2) + unat (wcet ! k) * (ceil_q t (unat (period ! k))
          - ceil_q (m * 2) (unat (period ! k))) \<le> ?D t"
        using m by (intro sp_demand_at_incr [OF k]) simp
      moreover have "ceil_q t (unat (period ! k)) - ceil_q (m * 2) (unat (period ! k)) = 1"
        using m 3 by (simp add: ck)
      moreover have "1 \<le> unat (wcet ! k)" using nk by simp
      ultimately show ?thesis using fit m by simp
    qed
  qed
qed


lemma sp_first_small:
  assumes v: "valid_tasks (Suc i) period wcet" and f: "sp_first period wcet i k l"
    and pt: "sp_point period i k' l'" and bf: "k' < k \<or> (k' = k \<and> l' \<le> l)"
  shows "l' \<le> 2 ^ 31 - 1" and "k' < k \<Longrightarrow> unat (period ! i) div unat (period ! k') < 2 ^ 31 - 1"
proof -
  have fits: "sp_fits period wcet i k l" using f by (simp add: sp_first_def)
  have k': "k' \<le> i" using pt by (simp add: sp_point_def)
  have none: "\<forall>n. 1 \<le> n \<and> n \<le> 2 ^ 31 - 1 \<longrightarrow>
       \<not> sp_demand_at period wcet i (sp_time period k' n) \<le> sp_time period k' n"
    if big: "2 ^ 31 - 1 \<le> unat (period ! i) div unat (period ! k')"
      and earlier: "\<forall>n. 1 \<le> n \<and> n \<le> 2 ^ 31 - 1 \<longrightarrow> k' < k \<or> (k' = k \<and> n < l)"
  proof (intro allI impI)
    fix n :: nat assume n: "1 \<le> n \<and> n \<le> 2 ^ 31 - 1"
    then have "sp_point period i k' n" using big k' by (simp add: sp_point_div)
    moreover have "k' < k \<or> (k' = k \<and> n < l)" using earlier n by blast
    ultimately have "\<not> sp_fits period wcet i k' n" using f by (simp add: sp_first_def)
    then show "\<not> sp_demand_at period wcet i (sp_time period k' n) \<le> sp_time period k' n"
      using \<open>sp_point period i k' n\<close> by (simp add: sp_fits_def)
  qed
  show "l' \<le> 2 ^ 31 - 1"
  proof (rule ccontr)
    assume "\<not> l' \<le> 2 ^ 31 - 1"
    then have gt: "2 ^ 31 - 1 < l'" by simp
    moreover have "l' \<le> unat (period ! i) div unat (period ! k')" using pt by (simp add: sp_point_div)
    ultimately have big: "2 ^ 31 - 1 \<le> unat (period ! i) div unat (period ! k')" by simp
    have "\<forall>n. 1 \<le> n \<and> n \<le> 2 ^ 31 - 1 \<longrightarrow> k' < k \<or> (k' = k \<and> n < l)"
      using bf gt by auto
    from sp_fits_ratio_small [OF v k' big none [OF big this]] fits show False by blast
  qed
  show "unat (period ! i) div unat (period ! k') < 2 ^ 31 - 1" if lt: "k' < k"
  proof (rule ccontr)
    assume "\<not> unat (period ! i) div unat (period ! k') < 2 ^ 31 - 1"
    then have big: "2 ^ 31 - 1 \<le> unat (period ! i) div unat (period ! k')" by simp
    have "\<forall>n. 1 \<le> n \<and> n \<le> 2 ^ 31 - 1 \<longrightarrow> k' < k \<or> (k' = k \<and> n < l)"
      using lt by simp
    from sp_fits_ratio_small [OF v k' big none [OF big this]] fits show False by blast
  qed
qed

lemma sp_search_first:
  assumes v: "valid_tasks (Suc i) period wcet" and f: "sp_first period wcet i k l"
  shows "k0 \<le> k \<Longrightarrow> sp_search period wcet i k0 = Inr True"
proof (induction k0 rule: measure_induct_rule [of "\<lambda>k0. k - k0"])
  case (less k0)
  have fits: "sp_fits period wcet i k l" using f by (simp add: sp_first_def)
  then have pt: "sp_point period i k l" by (simp add: sp_fits_def)
  then have ki: "k \<le> i" by (simp add: sp_point_def)
  have k0: "k0 \<le> i" using less.prems ki by simp
  have km: "k0 < 2 ^ 31 - 1" using k0 valid_tasks_loop [OF v] by simp
  show ?case
  proof (cases "k0 = k")
    case True
    have "l \<le> 2 ^ 31 - 1" by (rule sp_first_small(1) [OF v f pt]) simp
    moreover have "\<forall>n. 1 \<le> n \<and> n < l \<longrightarrow>
        sp_demand_at period wcet i (sp_time period k n) < 2 ^ 32"
      using f pt by (auto simp: sp_first_def sp_point_def)
    moreover have "1 \<le> l" "l \<le> unat (period ! i) div unat (period ! k)"
      using pt by (simp_all add: sp_point_div)
    moreover have "sp_demand_at period wcet i (sp_time period k l) \<le> sp_time period k l"
      using fits by (simp add: sp_fits_def)
    ultimately have "sp_points period wcet i k 1 = Inr True"
      by (intro sp_points_hit [OF v ki]) simp_all
    then show ?thesis using True ki by (subst sp_search.simps) simp
  next
    case False
    then have lt: "k0 < k" using less.prems by simp
    have small: "unat (period ! i) div unat (period ! k0) < 2 ^ 31 - 1"
    proof (cases "1 \<le> unat (period ! i) div unat (period ! k0)")
      case True
      then have "sp_point period i k0 1" using k0 by (simp add: sp_point_div)
      from sp_first_small(2) [OF v f this _ lt] lt show ?thesis by simp
    next
      case False
      then show ?thesis by simp
    qed
    have "\<forall>n. 1 \<le> n \<and> n \<le> unat (period ! i) div unat (period ! k0) \<longrightarrow>
        sp_demand_at period wcet i (sp_time period k0 n) < 2 ^ 32 \<and>
        \<not> sp_demand_at period wcet i (sp_time period k0 n) \<le> sp_time period k0 n"
    proof (intro allI impI)
      fix n assume n: "1 \<le> n \<and> n \<le> unat (period ! i) div unat (period ! k0)"
      then have p: "sp_point period i k0 n" using k0 by (simp add: sp_point_div)
      with f lt have "sp_demand_at period wcet i (sp_time period k0 n) < 2 ^ 32"
        "\<not> sp_fits period wcet i k0 n" by (auto simp: sp_first_def)
      then show "sp_demand_at period wcet i (sp_time period k0 n) < 2 ^ 32 \<and>
        \<not> sp_demand_at period wcet i (sp_time period k0 n) \<le> sp_time period k0 n"
        using p by (simp add: sp_fits_def)
    qed
    then have "sp_points period wcet i k0 1 = Inr False"
      by (rule sp_points_miss [OF v k0 small])
    moreover have "sp_search period wcet i (k0 + 1) = Inr True"
      using lt by (intro less.IH) simp_all
    ultimately show ?thesis using k0 km by (subst sp_search.simps) simp
  qed
qed

lemma sp_demand_at_mono: "s \<le> t \<Longrightarrow> sp_demand_at period wcet i s \<le> sp_demand_at period wcet i t"
  unfolding sp_demand_at_def by (intro sum_mono mult_le_mono2 ceil_q_mono)

lemma sp_time_le:
  assumes v: "valid_tasks (Suc i) period wcet" and pt: "sp_point period i k l"
  shows "sp_time period k l \<le> unat (period ! i)"
proof -
  from pt have k: "k \<le> i" and l: "l \<le> unat (period ! i) div unat (period ! k)"
    by (simp_all add: sp_point_div)
  then show ?thesis
    using valid_tasks_nth [OF v k] by (simp add: sp_time_def less_eq_div_iff_mult_less_eq)
qed

lemma sp_pass_first:
  assumes v: "valid_tasks (Suc i) period wcet"
    and fit: "sp_demand_at period wcet i (unat (period ! i)) < 2 ^ 32"
    and pass: "sp_pass period wcet i"
  shows "\<exists>k l. sp_first period wcet i k l"
proof -
  define k where "k = (LEAST k. \<exists>l. sp_fits period wcet i k l)"
  define l where "l = (LEAST l. sp_fits period wcet i k l)"
  from pass have ex: "\<exists>k. \<exists>l. sp_fits period wcet i k l" by (simp add: sp_pass_def)
  then have "\<exists>l. sp_fits period wcet i k l" unfolding k_def by (rule LeastI_ex)
  then have kl: "sp_fits period wcet i k l" unfolding l_def by (rule LeastI_ex)
  have "sp_demand_at period wcet i (sp_time period k' l') < 2 ^ 32 \<and> \<not> sp_fits period wcet i k' l'"
    if pt: "sp_point period i k' l'" and bf: "k' < k \<or> (k' = k \<and> l' < l)" for k' l'
  proof
    have "sp_demand_at period wcet i (sp_time period k' l')
        \<le> sp_demand_at period wcet i (unat (period ! i))"
      by (intro sp_demand_at_mono sp_time_le [OF v pt])
    then show "sp_demand_at period wcet i (sp_time period k' l') < 2 ^ 32" using fit by simp
    show "\<not> sp_fits period wcet i k' l'"
    proof
      assume f: "sp_fits period wcet i k' l'"
      then have "k \<le> k'" unfolding k_def by (intro Least_le) blast
      with bf have "k' = k" "l' < l" by simp_all
      moreover have "l \<le> l'" using f \<open>k' = k\<close> unfolding l_def by (intro Least_le) simp
      ultimately show False by simp
    qed
  qed
  with kl show ?thesis unfolding sp_first_def by blast
qed

lemma sp_passI:
  "sp_point period i k l \<Longrightarrow> sp_demand_at period wcet i (sp_time period k l) \<le> sp_time period k l \<Longrightarrow>
   sp_pass period wcet i"
  unfolding sp_pass_def sp_fits_def by blast

lemma sum_upt_numeral:
  "(\<Sum>j = 0..<numeral n. f j) =
   (\<Sum>j = 0..<pred_numeral n. f j) + (f (pred_numeral n) :: 'a :: comm_monoid_add)"
  by (simp add: numeral_eq_Suc)

lemmas sp_spec_eval = sp_point_def floor_q_def sp_demand_at_def sp_time_def ceil_q_def
  sum_upt_numeral
lemmas sp_code_eval = scheduling_point_feasibility_def sp_tasks.simps sp_search.simps
  sp_points.simps sp_demand.simps rd_def add_conv_def ceil_div_def



lemma sp_search_none:
  assumes v: "valid_tasks (Suc i) period wcet"
    and fit: "sp_demand_at period wcet i (unat (period ! i)) < 2 ^ 32"
    and small: "\<forall>k\<le>i. unat (period ! i) div unat (period ! k) < 2 ^ 31 - 1"
    and np: "\<not> sp_pass period wcet i"
  shows "sp_search period wcet i k0 = Inr False"
proof (induction k0 rule: measure_induct_rule [of "\<lambda>k0. Suc i - k0"])
  case (less k0)
  show ?case
  proof (cases "k0 \<le> i")
    case False
    then show ?thesis by (subst sp_search.simps) simp
  next
    case True
    have km: "k0 < 2 ^ 31 - 1" using True valid_tasks_loop [OF v] by simp
    have sm: "unat (period ! i) div unat (period ! k0) < 2 ^ 31 - 1" using small True by simp
    have "\<forall>n. 1 \<le> n \<and> n \<le> unat (period ! i) div unat (period ! k0) \<longrightarrow>
        sp_demand_at period wcet i (sp_time period k0 n) < 2 ^ 32 \<and>
        \<not> sp_demand_at period wcet i (sp_time period k0 n) \<le> sp_time period k0 n"
    proof (intro allI impI)
      fix n assume n: "1 \<le> n \<and> n \<le> unat (period ! i) div unat (period ! k0)"
      then have p: "sp_point period i k0 n" using True by (simp add: sp_point_div)
      have "sp_demand_at period wcet i (sp_time period k0 n)
          \<le> sp_demand_at period wcet i (unat (period ! i))"
        by (intro sp_demand_at_mono sp_time_le [OF v p])
      then have "sp_demand_at period wcet i (sp_time period k0 n) < 2 ^ 32" using fit by simp
      moreover have "\<not> sp_fits period wcet i k0 n" using np by (auto simp: sp_pass_def)
      ultimately show "sp_demand_at period wcet i (sp_time period k0 n) < 2 ^ 32 \<and>
          \<not> sp_demand_at period wcet i (sp_time period k0 n) \<le> sp_time period k0 n"
        using p by (simp add: sp_fits_def)
    qed
    then have "sp_points period wcet i k0 1 = Inr False"
      by (rule sp_points_miss [OF v True sm])
    moreover have "sp_search period wcet i (k0 + 1) = Inr False"
      using True by (intro less.IH) simp
    ultimately show ?thesis using True km by (subst sp_search.simps) simp
  qed
qed

text \<open>
  When the demand of tasks \<open>0..i\<close> by \<open>period\<^sub>i\<close> is below \<open>2 ^ 32\<close> and every quotient
  \<open>\<lfloor>period\<^sub>i / period\<^sub>k\<rfloor>\<close> is below \<open>2 ^ 31 - 1\<close>, the search for task \<open>i\<close> has no undefined
  step and finds a point if and only if there is one.
\<close>

lemma sp_search_verdict:
  assumes v: "valid_tasks (Suc i) period wcet"
    and fit: "sp_demand_at period wcet i (unat (period ! i)) < 2 ^ 32"
    and small: "\<forall>k\<le>i. unat (period ! i) div unat (period ! k) < 2 ^ 31 - 1"
  shows "sp_search period wcet i 0 = Inr (sp_pass period wcet i)"
proof (cases "sp_pass period wcet i")
  case True
  from sp_pass_first [OF v fit True] obtain k l where "sp_first period wcet i k l" by blast
  from sp_search_first [OF v this, of 0] show ?thesis using True by simp
next
  case False
  from sp_search_none [OF v fit small False, of 0] show ?thesis using False by simp
qed

lemma sp_tasks_verdict:
  assumes m: "unat numServices < 2 ^ 31"
    and s: "\<forall>t<unat numServices. sp_search period wcet t 0 = Inr (P t)"
  shows "sp_tasks numServices period wcet i rc =
    Inr (rc \<and> (\<forall>t. i \<le> t \<and> t < unat numServices \<longrightarrow> P t))"
proof (induction "unat numServices - i" arbitrary: i rc)
  case 0
  then have "\<not> i < unat numServices" by simp
  then show ?case by (subst sp_tasks.simps) auto
next
  case (Suc d)
  then have i: "i < unat numServices" by simp
  have im: "i < 2 ^ 31 - 1" using i m by simp
  have si: "sp_search period wcet i 0 = Inr (P i)" using s i by simp
  have "d = unat numServices - (i + 1)" using Suc.hyps(2) by simp
  from Suc.hyps(1) [OF this]
  have "sp_tasks numServices period wcet (i + 1) (if P i then rc else False) =
      Inr ((if P i then rc else False) \<and> (\<forall>t. i + 1 \<le> t \<and> t < unat numServices \<longrightarrow> P t))" .
  moreover have "(\<forall>t. i \<le> t \<and> t < unat numServices \<longrightarrow> P t) =
      (P i \<and> (\<forall>t. Suc i \<le> t \<and> t < unat numServices \<longrightarrow> P t))"
    by (rule all_from_Suc [OF i])
  ultimately show ?case using i im si by (subst sp_tasks.simps) auto
qed

lemma valid_tasks_lt: "valid_tasks n period wcet \<Longrightarrow> n < 2 ^ 31"
  by (simp add: valid_tasks_def)

text \<open>
  Claim C2, as the code has it. Take a task set of \<open>numServices\<close> tasks, fewer than
  \<open>2 ^ 31\<close>, with strictly positive periods and execution times.
  \<^item> The search of a task stops at its first satisfying point: when every task \<open>i\<close> has
    a scheduling point \<open>l * period\<^sub>k\<close> at which the demand of tasks \<open>0..i\<close> is at most the
    point and before which, in the order of the search, the demand at every point is below
    \<open>2 ^ 32\<close>, \<open>scheduling_point_feasibility\<close> returns TRUE, whatever the demand at the
    points after it.
  \<^item> When for every task \<open>i\<close> the demand by \<open>period\<^sub>i\<close> is below \<open>2 ^ 32\<close>, the range of
    \<^verbatim>\<open>temp\<close>, and every quotient \<open>\<lfloor>period\<^sub>i / period\<^sub>k\<rfloor>\<close> with \<open>k \<le> i\<close> is below
    \<open>2 ^ 31 - 1\<close>, the range of the counter \<^verbatim>\<open>l\<close>, the function returns a verdict: TRUE if
    and only if every task has at least one satisfying scheduling point, FALSE otherwise.

  Nothing is stated for the other task sets: there the search can convert a \<^verbatim>\<open>double\<close>
  of \<open>2 ^ 32\<close> or more to \<^verbatim>\<open>unsigned int\<close> or increment \<^verbatim>\<open>l\<close> beyond \<open>2 ^ 31 - 1\<close>, which is
  undefined.
\<close>

theorem scheduling_point_feasibility_first_point:
  "(valid_tasks (unat numServices) period wcet \<and>
      (\<forall>i<unat numServices. \<exists>k l. sp_first period wcet i k l) \<longrightarrow>
      scheduling_point_feasibility numServices period wcet deadline = Inr True)
   \<and> (valid_tasks (unat numServices) period wcet \<and>
      (\<forall>i<unat numServices. sp_demand_at period wcet i (unat (period ! i)) < 2 ^ 32) \<and>
      (\<forall>i<unat numServices. \<forall>k\<le>i. unat (period ! i) div unat (period ! k) < 2 ^ 31 - 1) \<longrightarrow>
      ((scheduling_point_feasibility numServices period wcet deadline = Inr True) =
         (\<forall>i<unat numServices. sp_pass period wcet i)) \<and>
      ((scheduling_point_feasibility numServices period wcet deadline = Inr False) =
         (\<not> (\<forall>i<unat numServices. sp_pass period wcet i))))"
proof (intro conjI impI)
  assume a: "valid_tasks (unat numServices) period wcet \<and>
      (\<forall>i<unat numServices. \<exists>k l. sp_first period wcet i k l)"
  then have v: "valid_tasks (unat numServices) period wcet" by simp
  have "sp_search period wcet i 0 = Inr True" if i: "i < unat numServices" for i
  proof -
    have vi: "valid_tasks (Suc i) period wcet" using i by (intro valid_tasks_mono [OF v]) simp
    from a i obtain k l where "sp_first period wcet i k l" by blast
    from sp_search_first [OF vi this, of 0] show ?thesis by simp
  qed
  then have "\<forall>t<unat numServices. sp_search period wcet t 0 = Inr True" by simp
  from sp_tasks_verdict [OF valid_tasks_lt [OF v] this, of 0 True]
  show "scheduling_point_feasibility numServices period wcet deadline = Inr True"
    by (simp add: scheduling_point_feasibility_def)
next
  assume a: "valid_tasks (unat numServices) period wcet \<and>
      (\<forall>i<unat numServices. sp_demand_at period wcet i (unat (period ! i)) < 2 ^ 32) \<and>
      (\<forall>i<unat numServices. \<forall>k\<le>i. unat (period ! i) div unat (period ! k) < 2 ^ 31 - 1)"
  then have v: "valid_tasks (unat numServices) period wcet" by simp
  have "sp_search period wcet i 0 = Inr (sp_pass period wcet i)" if i: "i < unat numServices" for i
  proof -
    have vi: "valid_tasks (Suc i) period wcet" using i by (intro valid_tasks_mono [OF v]) simp
    show ?thesis using a i by (intro sp_search_verdict [OF vi]) simp_all
  qed
  then have "\<forall>t<unat numServices. sp_search period wcet t 0 = Inr (sp_pass period wcet t)" by simp
  from sp_tasks_verdict [OF valid_tasks_lt [OF v] this, of 0 True]
  have r: "scheduling_point_feasibility numServices period wcet deadline =
      Inr (\<forall>i<unat numServices. sp_pass period wcet i)"
    by (simp add: scheduling_point_feasibility_def)
  show "(scheduling_point_feasibility numServices period wcet deadline = Inr True) =
      (\<forall>i<unat numServices. sp_pass period wcet i)"
    unfolding r by simp
  show "(scheduling_point_feasibility numServices period wcet deadline = Inr False) =
      (\<not> (\<forall>i<unat numServices. sp_pass period wcet i))"
    unfolding r by simp
qed

text \<open>
  The theorem at work. The tasks \<open>(T, C) = (2, 1), (5, 1)\<close> have small demands and quotients
  and a satisfying point each, so the verdict is TRUE, by the second part and, each task
  having a first satisfying point, by the first part too. Of the tasks
  \<open>(T, C) = (2, 1), (5, 3)\<close> the second has the points 2, 4 and 5 with the demands 4, 5 and
  6: none fits, and the verdict is FALSE.
\<close>

theorem scheduling_point_feasibility_first_point_witness:
  "scheduling_point_feasibility 2 [2, 5] [1, 1] [2, 5] = Inr True
   \<and> (\<exists>k l. sp_first [2, 5] [1, 1] 0 k l) \<and> (\<exists>k l. sp_first [2, 5] [1, 1] 1 k l)
   \<and> scheduling_point_feasibility 2 [2, 5] [1, 3] [2, 5] = Inr False"
proof (intro conjI)
  have q: "\<forall>i<2. \<forall>k\<le>i. unat ([2, 5 :: u32] ! i) div unat ([2, 5 :: u32] ! k) < 2 ^ 31 - 1"
  proof (intro allI impI)
    fix i k :: nat assume "i < 2" "k \<le> i"
    then consider "i = 0" "k = 0" | "i = 1" "k = 0" | "i = 1" "k = 1" by linarith
    then show "unat ([2, 5 :: u32] ! i) div unat ([2, 5 :: u32] ! k) < 2 ^ 31 - 1"
      by cases simp_all
  qed
  have v: "valid_tasks 2 [2, 5] [1, 1]"
    unfolding numeral_2_eq_2 by (simp add: valid_tasks_Suc valid_tasks_0)
  have d: "\<forall>i<2. sp_demand_at [2, 5] [1, 1] i (unat ([2, 5 :: u32] ! i)) < 2 ^ 32"
  proof (intro allI impI)
    fix i :: nat assume "i < 2"
    then consider "i = 0" | "i = 1" by linarith
    then show "sp_demand_at [2, 5] [1, 1] i (unat ([2, 5 :: u32] ! i)) < 2 ^ 32"
      by cases (simp_all add: sp_spec_eval)
  qed
  have p: "\<forall>i<2. sp_pass [2, 5] [1, 1] i"
  proof (intro allI impI)
    fix i :: nat assume "i < 2"
    then consider "i = 0" | "i = 1" by linarith
    then show "sp_pass [2, 5] [1, 1] i"
      by cases (rule sp_passI [where k = 0 and l = 1], simp_all add: sp_spec_eval)+
  qed
  show "scheduling_point_feasibility 2 [2, 5] [1, 1] [2, 5] = Inr True"
    using scheduling_point_feasibility_first_point [of 2 "[2, 5]" "[1, 1]" "[2, 5]"] v d q p
    by simp
  have f: "\<forall>i<2. \<exists>k l. sp_first [2, 5] [1, 1] i k l"
  proof (intro allI impI)
    fix i :: nat assume i: "i < 2"
    then have "valid_tasks (Suc i) [2, 5] [1, 1]" by (intro valid_tasks_mono [OF v]) simp
    then show "\<exists>k l. sp_first [2, 5] [1, 1] i k l"
      using d p i by (intro sp_pass_first) simp_all
  qed
  have "scheduling_point_feasibility 2 [2, 5] [1, 1] [2, 5] = Inr True"
    using scheduling_point_feasibility_first_point [of 2 "[2, 5]" "[1, 1]" "[2, 5]"] v f
    by simp
  show "\<exists>k l. sp_first [2, 5] [1, 1] 0 k l" using f by simp
  show "\<exists>k l. sp_first [2, 5] [1, 1] 1 k l" using f by simp
  have v': "valid_tasks 2 [2, 5] [1, 3]"
    unfolding numeral_2_eq_2 by (simp add: valid_tasks_Suc valid_tasks_0)
  have d': "\<forall>i<2. sp_demand_at [2, 5] [1, 3] i (unat ([2, 5 :: u32] ! i)) < 2 ^ 32"
  proof (intro allI impI)
    fix i :: nat assume "i < 2"
    then consider "i = 0" | "i = 1" by linarith
    then show "sp_demand_at [2, 5] [1, 3] i (unat ([2, 5 :: u32] ! i)) < 2 ^ 32"
      by cases (simp_all add: sp_spec_eval)
  qed
  have "\<not> sp_pass [2, 5] [1, 3] 1"
  proof
    assume "sp_pass [2, 5] [1, 3] 1"
    then obtain k l where f: "sp_fits [2, 5] [1, 3] 1 k l" by (auto simp: sp_pass_def)
    then have k: "k \<le> 1" and l1: "1 \<le> l" by (simp_all add: sp_fits_def sp_point_def)
    from k consider "k = 0" | "k = 1" by linarith
    then show False
    proof cases
      case 1
      with f have "l \<le> 2" by (simp add: sp_fits_def sp_point_div)
      with l1 consider "l = 1" | "l = 2" by linarith
      then show False using f 1 by cases (simp_all add: sp_fits_def sp_spec_eval)
    next
      case 2
      with f l1 have "l = 1" by (simp add: sp_fits_def sp_point_div)
      then show False using f 2 by (simp add: sp_fits_def sp_spec_eval)
    qed
  qed
  then have np: "\<not> (\<forall>i<2. sp_pass [2, 5] [1, 3] i)"
    by (auto intro!: exI [of _ 1])
  show "scheduling_point_feasibility 2 [2, 5] [1, 3] [2, 5] = Inr False"
    using scheduling_point_feasibility_first_point [of 2 "[2, 5]" "[1, 3]" "[2, 5]"] v' d' q np
    by simp
qed

text \<open>
  Claim C2 as stated does not bound the sums. For the periods
  \<open>1431655765, 2147483647, 4294967295\<close> and execution times \<open>1, 2, 4294967287\<close> every task has
  a satisfying point (for the third task \<open>2 * 2147483647\<close>, with demand \<open>4294967294\<close>), but the
  search of the third task first examines \<open>3 * 1431655765\<close>, where the demand is \<open>2 ^ 32\<close>
  and its conversion to \<^verbatim>\<open>unsigned int\<close> is undefined. For the periods \<open>2 ^ 31, 2 ^ 32 - 1\<close>
  and execution times \<open>2 ^ 31, 2 ^ 31 + 5\<close> the second task has no satisfying point (its
  points are \<open>2 ^ 31\<close> and \<open>2 ^ 32 - 1\<close>, with the demands \<open>2 ^ 32 + 5\<close> and
  \<open>3 * 2 ^ 31 + 5\<close>), and the code does not return FALSE: it converts \<open>2 ^ 32 + 5\<close> to
  \<^verbatim>\<open>unsigned int\<close>; where that conversion keeps the low 32 bits, \<^verbatim>\<open>temp\<close> is 5 and the
  verdict is TRUE.
\<close>

theorem scheduling_point_feasibility_demand_overflow:
  "valid_tasks 3 [1431655765, 2147483647, 4294967295] [1, 2, 4294967287]
   \<and> sp_pass [1431655765, 2147483647, 4294967295] [1, 2, 4294967287] 0
   \<and> sp_pass [1431655765, 2147483647, 4294967295] [1, 2, 4294967287] 1
   \<and> sp_pass [1431655765, 2147483647, 4294967295] [1, 2, 4294967287] 2
   \<and> scheduling_point_feasibility 3 [1431655765, 2147483647, 4294967295] [1, 2, 4294967287]
         [1431655765, 2147483647, 4294967295] = Inl ConvRange
   \<and> valid_tasks 2 [2147483648, 4294967295] [2147483648, 2147483653]
   \<and> \<not> sp_pass [2147483648, 4294967295] [2147483648, 2147483653] 1
   \<and> scheduling_point_feasibility 2 [2147483648, 4294967295] [2147483648, 2147483653]
         [2147483648, 4294967295] = Inl ConvRange"
proof (intro conjI)
  show "valid_tasks 3 [1431655765, 2147483647, 4294967295] [1, 2, 4294967287]"
    unfolding numeral_3_eq_3 by (simp add: valid_tasks_Suc valid_tasks_0)
  show "sp_pass [1431655765, 2147483647, 4294967295] [1, 2, 4294967287] 0"
    by (rule sp_passI [where k = 0 and l = 1]) (simp_all add: sp_spec_eval)
  show "sp_pass [1431655765, 2147483647, 4294967295] [1, 2, 4294967287] 1"
    by (rule sp_passI [where k = 0 and l = 1]) (simp_all add: sp_spec_eval)
  show "sp_pass [1431655765, 2147483647, 4294967295] [1, 2, 4294967287] 2"
    by (rule sp_passI [where k = 1 and l = 2]) (simp_all add: sp_spec_eval)
  show "scheduling_point_feasibility 3 [1431655765, 2147483647, 4294967295] [1, 2, 4294967287]
         [1431655765, 2147483647, 4294967295] = Inl ConvRange"
    by (simp add: sp_code_eval)
  show "valid_tasks 2 [2147483648, 4294967295] [2147483648, 2147483653]"
    unfolding numeral_2_eq_2 by (simp add: valid_tasks_Suc valid_tasks_0)
  show "\<not> sp_pass [2147483648, 4294967295] [2147483648, 2147483653] 1"
  proof
    assume "sp_pass [2147483648, 4294967295] [2147483648, 2147483653] 1"
    then obtain k l where f: "sp_fits [2147483648, 4294967295] [2147483648, 2147483653] 1 k l"
      by (auto simp: sp_pass_def)
    then have k: "k \<le> 1" and l1: "1 \<le> l" by (simp_all add: sp_fits_def sp_point_def)
    from k consider "k = 0" | "k = 1" by linarith
    then show False
    proof cases
      case 1
      with f l1 have "l = 1" by (simp add: sp_fits_def sp_point_div)
      then show False using f 1 by (simp add: sp_fits_def sp_spec_eval)
    next
      case 2
      with f l1 have "l = 1" by (simp add: sp_fits_def sp_point_div)
      then show False using f 2 by (simp add: sp_fits_def sp_spec_eval)
    qed
  qed
  show "scheduling_point_feasibility 2 [2147483648, 4294967295] [2147483648, 2147483653]
         [2147483648, 4294967295] = Inl ConvRange"
    by (simp add: sp_code_eval)
qed

subsection \<open>Agreement of the two exact tests\<close>

lemma sp_overload_eval: "scheduling_point_feasibility 2 [1, 2] [1, 1] [1, 2] = Inr False"
  by (simp add: sp_code_eval)

text \<open>
  Claim C3 says that the two exact tests return the same verdict on every valid task set
  with implicit deadlines. On the two tasks with periods and deadlines \<open>1, 2\<close> and execution
  times \<open>1, 1\<close> (rate-monotonic order, utilization 1.5) \<open>scheduling_point_feasibility\<close>
  returns FALSE, and \<open>completion_time_feasibility\<close> returns nothing: its loop for the second
  task has no fixed point to stop at and runs until \<open>2 ^ 32\<close> is converted to
  \<^verbatim>\<open>unsigned int\<close>, which is undefined.
\<close>

theorem exact_tests_disagree_on_overload:
  "completion_time_feasibility 2 [1, 2] [1, 1] [1, 2] = Inl ConvRange
   \<and> scheduling_point_feasibility 2 [1, 2] [1, 1] [1, 2] = Inr False"
  using ct_overload_eval sp_overload_eval by simp

subsection \<open>Utilization tests and the total utilization\<close>

text \<open>
  The specification's total utilization \<open>U = \<Sum>\<^sub>i wcet\<^sub>i / period\<^sub>i\<close>, a real number, and the
  unit roundoff of binary64.
\<close>

definition ratio :: "nat \<Rightarrow> nat \<Rightarrow> real" where
  "ratio a b = real a / real b"

definition utilization :: "nat \<Rightarrow> u32 list \<Rightarrow> u32 list \<Rightarrow> real" where
  "utilization n period wcet = (\<Sum>i = 0..<n. ratio (unat (wcet ! i)) (unat (period ! i)))"

definition eps :: real where
  "eps = 1 / 2 ^ 53"

lemma pow2_powi: "pow2 e = 2 powi e"
  by (simp add: pow2_def power_int_def power_inverse [symmetric] field_simps)

lemma pow2_pos: "0 < pow2 e"
  by (simp add: pow2_powi)

lemma pow2_add: "pow2 (a + b) = pow2 a * pow2 b"
  by (simp add: pow2_powi power_int_add)

lemma pow2_mono: "a \<le> b \<Longrightarrow> pow2 a \<le> pow2 b"
  by (simp add: pow2_powi power_int_increasing)

lemma bexp_down_lower:
  "e \<le> 0 \<Longrightarrow> pow2 (- 1022) \<le> x * pow2 e \<Longrightarrow> pow2 (bexp_down x e) \<le> x * pow2 e"
proof (induction x e rule: bexp_down.induct)
  case (1 x e)
  show ?case
  proof (cases "1 \<le> x \<or> e \<le> - 1022")
    case True
    then have r: "bexp_down x e = e" by (subst bexp_down.simps) simp
    from True show ?thesis
    proof
      assume "1 \<le> x"
      then have "pow2 e * 1 \<le> pow2 e * x" using pow2_pos [of e] by (intro mult_left_mono) simp_all
      then show ?thesis using r by (simp add: mult.commute)
    next
      assume "e \<le> - 1022"
      then have "pow2 e \<le> pow2 (- 1022)" by (rule pow2_mono)
      then show ?thesis using r "1.prems"(2) by simp
    qed
  next
    case False
    then have r: "bexp_down x e = bexp_down (2 * x) (e - 1)" by (subst bexp_down.simps) simp
    have "pow2 e = pow2 (e - 1) * pow2 1" using pow2_add [of "e - 1" 1] by simp
    then have eq: "2 * x * pow2 (e - 1) = x * pow2 e" by (simp add: pow2_def)
    have "pow2 (bexp_down (2 * x) (e - 1)) \<le> 2 * x * pow2 (e - 1)"
      using "1.prems" unfolding eq [symmetric] by (intro "1.IH" [OF False]) simp_all
    then show ?thesis unfolding r eq .
  qed
qed

lemma bexp_up_lower: "1 \<le> x \<Longrightarrow> pow2 (bexp_up x e) \<le> x * pow2 e"
proof (induction x e rule: bexp_up.induct)
  case (1 x e)
  show ?case
  proof (cases "x < 2 \<or> 1023 \<le> e")
    case True
    then have r: "bexp_up x e = e" by (subst bexp_up.simps) simp
    have "pow2 e * 1 \<le> pow2 e * x" using pow2_pos [of e] "1.prems" by (intro mult_left_mono) simp_all
    then show ?thesis using r by (simp add: mult.commute)
  next
    case False
    then have r: "bexp_up x e = bexp_up (x / 2) (e + 1)" by (subst bexp_up.simps) simp
    have "pow2 (e + 1) = pow2 e * pow2 1" by (rule pow2_add)
    then have eq: "x / 2 * pow2 (e + 1) = x * pow2 e" by (simp add: pow2_def)
    have "1 \<le> x / 2" using False by simp
    from "1.IH" [OF False this] have "pow2 (bexp_up (x / 2) (e + 1)) \<le> x / 2 * pow2 (e + 1)" .
    then show ?thesis unfolding r eq .
  qed
qed

lemma bexp_lower: "pow2 (- 1022) \<le> x \<Longrightarrow> pow2 (bexp x) \<le> x"
proof (cases "x < 1")
  case True
  assume "pow2 (- 1022) \<le> x"
  then show ?thesis using True bexp_down_lower [of 0 x] by (simp add: bexp_def pow2_def)
next
  case False
  then show ?thesis using bexp_up_lower [of x 0] by (simp add: bexp_def pow2_def)
qed

lemma half_even_error: "\<bar>of_int (half_even r) - r\<bar> \<le> 1 / 2"
proof -
  have "of_int \<lfloor>r\<rfloor> \<le> r" "r < of_int \<lfloor>r\<rfloor> + 1" by linarith+
  then show ?thesis by (auto simp: half_even_def Let_def)
qed

lemma rne_error:
  assumes "pow2 (- 1022) \<le> \<bar>x\<bar>"
  shows "\<bar>rne x - x\<bar> \<le> \<bar>x\<bar> / 2 ^ 53"
proof -
  define u where "u = pow2 (bexp \<bar>x\<bar> - 52)"
  define h where "h = half_even (\<bar>x\<bar> / u)"
  have u0: "0 < u" unfolding u_def by (rule pow2_pos)
  have x0: "x \<noteq> 0" using assms pow2_pos [of "- 1022"] by auto
  have r: "rne x = sgn x * of_int h * u" using x0 by (simp add: rne_def u_def h_def Let_def)
  have "x = sgn x * \<bar>x\<bar>" by (simp add: sgn_if)
  then have "rne x - x = sgn x * (of_int h * u - \<bar>x\<bar>)" using r by (simp add: algebra_simps)
  then have "\<bar>rne x - x\<bar> = \<bar>of_int h * u - \<bar>x\<bar>\<bar>" using x0 by (simp add: abs_mult sgn_if)
  also have "of_int h * u - \<bar>x\<bar> = (of_int h - \<bar>x\<bar> / u) * u" using u0 by (simp add: field_simps)
  also have "\<bar>\<dots>\<bar> = \<bar>of_int h - \<bar>x\<bar> / u\<bar> * u" using u0 by (simp add: abs_mult)
  also have "\<dots> \<le> 1 / 2 * u"
    unfolding h_def using u0 by (intro mult_right_mono half_even_error) simp
  also have "u = pow2 (bexp \<bar>x\<bar>) * pow2 (- 52)" unfolding u_def using pow2_add [of "bexp \<bar>x\<bar>" "- 52"] by simp
  also have "1 / 2 * (pow2 (bexp \<bar>x\<bar>) * pow2 (- 52)) = pow2 (bexp \<bar>x\<bar>) / 2 ^ 53" by (simp add: pow2_def)
  also have "\<dots> \<le> \<bar>x\<bar> / 2 ^ 53" using bexp_lower [OF assms] by (intro divide_right_mono) simp_all
  finally show ?thesis .
qed


lemma eps_bounds: "0 < eps" "eps < 1"
  by (simp_all add: eps_def)

lemma abs_err_bounds:
  fixes r x u :: real
  assumes "\<bar>r - x\<bar> \<le> x * u"
  shows "x * (1 - u) \<le> r" and "r \<le> x * (1 + u)"
  using assms by (simp_all add: algebra_simps abs_le_iff)

lemma rne_bounds:
  assumes "pow2 (- 1022) \<le> x"
  shows "x * (1 - eps) \<le> rne x" and "rne x \<le> x * (1 + eps)"
proof -
  have "0 < x" using assms pow2_pos [of "- 1022"] by linarith
  then have "\<bar>rne x - x\<bar> \<le> x / 2 ^ 53" using rne_error [of x] assms by simp
  then have "\<bar>rne x - x\<bar> \<le> x * eps" by (simp only: eps_def times_divide_eq_right mult_1_right)
  then show "x * (1 - eps) \<le> rne x" and "rne x \<le> x * (1 + eps)"
    by (rule abs_err_bounds)+
qed

lemma d_round_Fin:
  assumes lo: "pow2 (- 1022) \<le> x" and hi: "x \<le> 2 ^ 1000"
  shows "\<exists>r. d_round x = Fin r \<and> x * (1 - eps) \<le> r \<and> r \<le> x * (1 + eps)"
proof -
  have x0: "0 < x" using lo pow2_pos [of "- 1022"] by linarith
  note b = rne_bounds [OF lo]
  have "x * (1 + eps) \<le> 2 ^ 1000 * 2"
    using hi eps_bounds x0 by (intro mult_mono) simp_all
  also have "\<dots> < (2 ^ 1024 :: real)" by simp
  finally have "rne x < 2 ^ 1024" using b(2) by simp
  moreover have "0 \<le> x * (1 - eps)" using x0 eps_bounds by simp
  then have "0 \<le> rne x" using b(1) by simp
  ultimately have "d_round x = Fin (rne x)" by (simp add: d_round_def Let_def)
  with b show ?thesis by simp
qed

lemma d_round_lower:
  assumes lo: "pow2 (- 1022) \<le> x"
  shows "d_round x = PInf \<or> (\<exists>r. d_round x = Fin r \<and> x * (1 - eps) \<le> r)"
proof -
  have x0: "0 < x" using lo pow2_pos [of "- 1022"] by linarith
  note b = rne_bounds(1) [OF lo]
  have "0 \<le> x * (1 - eps)" using x0 eps_bounds by simp
  then have "0 \<le> rne x" using b by simp
  then show ?thesis using b by (simp add: d_round_def Let_def)
qed


lemma ratio_bounds:
  assumes "0 < a" "a < 2 ^ 32" "0 < b" "b < 2 ^ 32"
  shows "1 / 2 ^ 32 \<le> ratio a b" and "ratio a b \<le> 2 ^ 32"
proof -
  have a: "1 \<le> real a" "real a \<le> 2 ^ 32" using assms(1,2) by (simp_all add: Suc_le_eq flip: of_nat_Suc)
  have b: "1 \<le> real b" "real b \<le> 2 ^ 32" using assms(3,4) by (simp_all add: Suc_le_eq flip: of_nat_Suc)
  have "1 / 2 ^ 32 \<le> 1 / real b" using b by (intro divide_left_mono) simp_all
  also have "\<dots> \<le> real a / real b" using a b by (intro divide_right_mono) simp_all
  finally show "1 / 2 ^ 32 \<le> ratio a b" by (simp add: ratio_def)
  have "real a / real b \<le> real a / 1" using a b by (intro divide_left_mono) simp_all
  then show "ratio a b \<le> 2 ^ 32" using a by (simp add: ratio_def)
qed

lemma nat_fdiv_Fin:
  assumes "0 < a" "a < 2 ^ 32" "0 < b" "b < 2 ^ 32"
  shows "\<exists>q. nat_fdiv a b = Fin q \<and> ratio a b * (1 - eps) \<le> q \<and> q \<le> ratio a b * (1 + eps)"
proof -
  note rb = ratio_bounds [OF assms]
  have "pow2 (- 1022) \<le> 1 / 2 ^ 32" by (simp add: pow2_def)
  then have lo: "pow2 (- 1022) \<le> ratio a b" using rb(1) by linarith
  have hi: "ratio a b \<le> 2 ^ 1000" using rb(2) by (rule order_trans) simp
  from d_round_Fin [OF lo hi] show ?thesis
    using assms(3) by (simp add: nat_fdiv_def ratio_def)
qed

lemma utilization_Suc:
  "utilization (Suc n) period wcet =
   utilization n period wcet + ratio (unat (wcet ! n)) (unat (period ! n))"
  by (simp add: utilization_def)

lemma ratio_nonneg: "0 \<le> ratio a b"
  by (simp add: ratio_def)

lemma utilization_nonneg: "0 \<le> utilization n period wcet"
  unfolding utilization_def by (intro sum_nonneg ratio_nonneg)

lemma utilization_mono: "m \<le> n \<Longrightarrow> utilization m period wcet \<le> utilization n period wcet"
proof (induction n)
  case 0
  then show ?case by simp
next
  case (Suc n)
  have "0 \<le> ratio (unat (wcet ! n)) (unat (period ! n))" by (rule ratio_nonneg)
  then show ?case using Suc by (cases "m = Suc n") (simp_all add: utilization_Suc)
qed

lemma util_sum_step:
  assumes "idx < unat numServices" "idx < length period" "idx < length wcet" "idx < 2 ^ 31 - 1"
  shows "util_sum numServices period wcet idx s =
     util_sum numServices period wcet (idx + 1)
       (fadd s (nat_fdiv (unat (wcet ! idx)) (unat (period ! idx))))"
  using assms by (subst util_sum.simps) (simp add: rd_def)



lemma tiny_le: "pow2 (- 1022) \<le> (1 / 2 ^ 32) * (1 - eps)"
proof -
  have "pow2 (- 1022) \<le> 1 / 2 ^ 33" by (simp add: pow2_def)
  also have "\<dots> = (1 / 2 ^ 32) * (1 / 2 :: real)" by simp
  also have "\<dots> \<le> (1 / 2 ^ 32) * (1 - eps)"
    by (intro mult_left_mono) (simp_all add: eps_def)
  finally show ?thesis .
qed

lemma task_quotient:
  assumes vi: "valid_tasks (Suc i) period wcet"
  shows "\<exists>q. nat_fdiv (unat (wcet ! i)) (unat (period ! i)) = Fin q \<and>
      ratio (unat (wcet ! i)) (unat (period ! i)) * (1 - eps) \<le> q \<and>
      q \<le> ratio (unat (wcet ! i)) (unat (period ! i)) * (1 + eps) \<and>
      pow2 (- 1022) \<le> q \<and> q \<le> 2 ^ 33 \<and>
      1 / 2 ^ 32 \<le> ratio (unat (wcet ! i)) (unat (period ! i))"
proof -
  let ?x = "ratio (unat (wcet ! i)) (unat (period ! i))"
  note nth = valid_tasks_nth [OF vi order_refl]
  have lts: "unat (wcet ! i) < 2 ^ 32" "unat (period ! i) < 2 ^ 32"
    using rd_lt [of wcet i] rd_lt [of period i] nth by (simp_all add: rd_def)
  from nat_fdiv_Fin [OF _ lts(1) _ lts(2)] nth obtain q where
    q: "nat_fdiv (unat (wcet ! i)) (unat (period ! i)) = Fin q"
    and ql: "?x * (1 - eps) \<le> q" and qu: "q \<le> ?x * (1 + eps)" by auto
  note rb = ratio_bounds [OF _ lts(1) _ lts(2)]
  have x_lo: "1 / 2 ^ 32 \<le> ?x" and x_hi: "?x \<le> 2 ^ 32" using rb nth by simp_all
  have "(1 / 2 ^ 32) * (1 - eps) \<le> ?x * (1 - eps)"
    using x_lo eps_bounds by (intro mult_right_mono) simp_all
  then have q_lo: "pow2 (- 1022) \<le> q" using ql tiny_le by linarith
  have "?x * (1 + eps) \<le> 2 ^ 32 * 2" using x_hi eps_bounds by (intro mult_mono) simp_all
  then have q_hi: "q \<le> 2 ^ 33" using qu by simp
  show ?thesis using q ql qu q_lo q_hi x_lo by blast
qed


lemma util_sum_upper:
  assumes v: "valid_tasks (unat N) period wcet"
    and hyp: "utilization (unat N) period wcet * (1 + eps) ^ (unat N + 1) \<le> 1"
  shows "i \<le> unat N \<Longrightarrow> 0 \<le> a \<Longrightarrow> a \<le> utilization i period wcet * (1 + eps) ^ (i + 1) \<Longrightarrow>
    \<exists>b. util_sum N period wcet i (Fin a) = Inr (Fin b) \<and>
        b \<le> utilization (unat N) period wcet * (1 + eps) ^ (unat N + 1)"
proof (induction "unat N - i" arbitrary: i a)
  case 0
  then have "i = unat N" by simp
  then show ?case using "0.prems" by (subst util_sum.simps) simp
next
  case (Suc d)
  then have i: "i < unat N" by simp
  let ?x = "ratio (unat (wcet ! i)) (unat (period ! i))"
  let ?c = "1 + eps"
  let ?U = "utilization i period wcet"
  have vi: "valid_tasks (Suc i) period wcet" using i by (intro valid_tasks_mono [OF v]) simp
  note nth = valid_tasks_nth [OF vi order_refl]
  have im: "i < 2 ^ 31 - 1" using valid_tasks_loop [OF vi] by simp
  from task_quotient [OF vi] obtain q where
    q: "nat_fdiv (unat (wcet ! i)) (unat (period ! i)) = Fin q"
    and qu: "q \<le> ?x * ?c" and q_lo: "pow2 (- 1022) \<le> q" and q_hi: "q \<le> 2 ^ 33"
    and x_lo: "1 / 2 ^ 32 \<le> ?x" by blast
  have c1: "1 \<le> ?c" using eps_bounds by simp
  have x0: "0 \<le> ?x" by (rule ratio_nonneg)
  have "?U * ?c ^ (i + 1) \<le> utilization (unat N) period wcet * ?c ^ (unat N + 1)"
    using i c1 utilization_nonneg
    by (intro mult_mono utilization_mono power_increasing) simp_all
  then have a1: "a \<le> 1" using Suc.prems(3) hyp by linarith
  have lo: "pow2 (- 1022) \<le> a + q" using q_lo Suc.prems(2) by simp
  have "a + q \<le> 1 + 2 ^ 33" using a1 q_hi by simp
  also have "\<dots> \<le> (2 ^ 1000 :: real)" by simp
  finally have hi: "a + q \<le> 2 ^ 1000" .
  from d_round_Fin [OF lo hi] obtain b where b: "d_round (a + q) = Fin b"
    and bl: "(a + q) * (1 - eps) \<le> b" and bu: "b \<le> (a + q) * ?c" by blast
  have "0 \<le> (a + q) * (1 - eps)"
    using lo pow2_pos [of "- 1022"] eps_bounds by (intro mult_nonneg_nonneg) simp_all
  then have b0: "0 \<le> b" using bl by simp
  have "(a + q) * ?c \<le> (?U * ?c ^ (i + 1) + ?x * ?c) * ?c"
    using Suc.prems(3) qu c1 by (intro mult_right_mono add_mono) simp_all
  also have "\<dots> = ?U * ?c ^ (i + 2) + ?x * ?c ^ 2"
    by (simp add: algebra_simps power2_eq_square)
  also have "\<dots> \<le> ?U * ?c ^ (i + 2) + ?x * ?c ^ (i + 2)"
    using c1 x0 by (intro add_left_mono mult_left_mono power_increasing) simp_all
  also have "\<dots> = utilization (Suc i) period wcet * ?c ^ (Suc i + 1)"
    by (simp add: utilization_Suc algebra_simps)
  finally have "b \<le> utilization (Suc i) period wcet * ?c ^ (Suc i + 1)"
    using bu by simp
  moreover have "d = unat N - Suc i" using Suc.hyps(2) by simp
  moreover have "Suc i \<le> unat N" using i by simp
  ultimately obtain b' where "util_sum N period wcet (Suc i) (Fin b) = Inr (Fin b')"
    "b' \<le> utilization (unat N) period wcet * ?c ^ (unat N + 1)"
    using Suc.hyps(1) [of "Suc i" b] b0 by blast
  moreover have "util_sum N period wcet i (Fin a) = util_sum N period wcet (Suc i) (Fin b)"
    using util_sum_step [of i N period wcet "Fin a"] i nth im q b by simp
  ultimately show ?case by simp
qed

lemma util_sum_lower:
  assumes v: "valid_tasks (unat N) period wcet"
  shows "i \<le> unat N \<Longrightarrow>
    s = PInf \<or> (\<exists>a. s = Fin a \<and> 0 \<le> a \<and> utilization i period wcet * (1 - eps) ^ (i + 1) \<le> a) \<Longrightarrow>
    \<exists>s'. util_sum N period wcet i s = Inr s' \<and>
      (s' = PInf \<or> (\<exists>b. s' = Fin b \<and> utilization (unat N) period wcet * (1 - eps) ^ (unat N + 1) \<le> b))"
proof (induction "unat N - i" arbitrary: i s)
  case 0
  then have "i = unat N" by simp
  then show ?case using "0.prems" by (subst util_sum.simps) auto
next
  case (Suc d)
  then have i: "i < unat N" by simp
  let ?x = "ratio (unat (wcet ! i)) (unat (period ! i))"
  let ?c = "1 - eps"
  let ?U = "utilization i period wcet"
  have vi: "valid_tasks (Suc i) period wcet" using i by (intro valid_tasks_mono [OF v]) simp
  note nth = valid_tasks_nth [OF vi order_refl]
  have im: "i < 2 ^ 31 - 1" using valid_tasks_loop [OF vi] by simp
  from task_quotient [OF vi] obtain q where
    q: "nat_fdiv (unat (wcet ! i)) (unat (period ! i)) = Fin q"
    and ql: "?x * ?c \<le> q" and q_lo: "pow2 (- 1022) \<le> q" by blast
  have c0: "0 \<le> ?c" and c1: "?c \<le> 1" using eps_bounds by simp_all
  have x0: "0 \<le> ?x" by (rule ratio_nonneg)
  define s1 where "s1 = fadd s (Fin q)"
  have step: "util_sum N period wcet i s = util_sum N period wcet (Suc i) s1"
    using util_sum_step [of i N period wcet s] i nth im q by (simp add: s1_def)
  have inv: "s1 = PInf \<or>
      (\<exists>b. s1 = Fin b \<and> 0 \<le> b \<and> utilization (Suc i) period wcet * ?c ^ (Suc i + 1) \<le> b)"
  proof (cases "s = PInf")
    case True
    then show ?thesis by (simp add: s1_def)
  next
    case False
    with Suc.prems(2) obtain a where a: "s = Fin a" and a0: "0 \<le> a"
      and al: "?U * ?c ^ (i + 1) \<le> a" by blast
    have lo: "pow2 (- 1022) \<le> a + q" using q_lo a0 by simp
    from d_round_lower [OF lo] show ?thesis
    proof
      assume "d_round (a + q) = PInf"
      then show ?thesis by (simp add: s1_def a)
    next
      assume "\<exists>r. d_round (a + q) = Fin r \<and> (a + q) * ?c \<le> r"
      then obtain b where b: "d_round (a + q) = Fin b" and bl: "(a + q) * ?c \<le> b" by blast
      have "0 \<le> (a + q) * ?c"
        using lo pow2_pos [of "- 1022"] c0 by (intro mult_nonneg_nonneg) simp_all
      then have b0: "0 \<le> b" using bl by simp
      have "utilization (Suc i) period wcet * ?c ^ (Suc i + 1)
          = ?U * ?c ^ (i + 2) + ?x * ?c ^ (i + 2)"
        by (simp add: utilization_Suc algebra_simps)
      also have "\<dots> \<le> ?U * ?c ^ (i + 2) + ?x * ?c ^ 2"
        using c0 c1 x0 by (intro add_left_mono mult_left_mono power_decreasing) simp_all
      also have "\<dots> = (?U * ?c ^ (i + 1) + ?x * ?c) * ?c"
        by (simp add: algebra_simps power2_eq_square)
      also have "\<dots> \<le> (a + q) * ?c"
        using al ql c0 by (intro mult_right_mono add_mono) simp_all
      finally have "utilization (Suc i) period wcet * ?c ^ (Suc i + 1) \<le> b" using bl by simp
      then show ?thesis using b b0 by (simp add: s1_def a)
    qed
  qed
  have "d = unat N - Suc i" using Suc.hyps(2) by simp
  moreover have "Suc i \<le> unat N" using i by simp
  ultimately show ?case using Suc.hyps(1) [of "Suc i" s1] inv step by simp
qed


lemmas util_eval = util_sum.simps rd_def fl_eval





lemma valid_tasks_1: "valid_tasks (Suc 0) [p] [w] \<longleftrightarrow> p \<noteq> 0 \<and> w \<noteq> 0"
  using valid_tasks_Suc [of 0 "[p]" "[w]"] by (simp add: valid_tasks_0)



subsection \<open>Rate-monotonic utilization bound\<close>

text \<open>
  The specification's bound \<open>N * (2\<^sup>1\<^sup>/\<^sup>N - 1)\<close>, a real number.
\<close>

definition lub_exact :: "nat \<Rightarrow> real" where
  "lub_exact n = real n * (2 powr (1 / real n) - 1)"

lemma lub_exact_1: "lub_exact (Suc 0) = 1"
  by (simp add: lub_exact_def)

text \<open>
  \<^verbatim>\<open>numServices * (pow(2.0, 1.0 / numServices) - 1.0)\<close> when \<^verbatim>\<open>pow\<close> returns \<open>v\<close>: the
  difference and the product are rounded.
\<close>

lemma lub_value:
  assumes n: "1 \<le> n" "n < 2 ^ 32" and v: "1 + 1 / 2 ^ 52 \<le> v" "v \<le> 2"
  shows "\<exists>r. fmul (Fin (real n)) (fadd (Fin v) (Fin (- 1))) = Fin r \<and>
     real n * (v - 1) * (1 - eps) ^ 2 \<le> r \<and> r \<le> real n * (v - 1) * (1 + eps) ^ 2"
proof -
  have rn: "1 \<le> real n" "real n \<le> 2 ^ 32"
    using n by (simp_all add: Suc_le_eq flip: of_nat_Suc)
  have c0: "0 \<le> 1 - eps" "1 - eps \<le> 1" "1 \<le> 1 + eps" "1 + eps \<le> 2" "1 / 2 \<le> 1 - eps"
    by (simp_all add: eps_def)
  have lo1: "pow2 (- 1022) \<le> v - 1"
  proof -
    have "pow2 (- 1022) \<le> 1 / 2 ^ 52" by (simp add: pow2_def)
    then show ?thesis using v by linarith
  qed
  have v0: "1 / 2 ^ 52 \<le> v - 1" "v - 1 \<le> 1" using v by simp_all
  have hi1: "v - 1 \<le> 2 ^ 1000"
  proof -
    note v0(2)
    also have "(1 :: real) \<le> 2 ^ 1000" by simp
    finally show ?thesis .
  qed
  from d_round_Fin [OF lo1 hi1] obtain r1 where r1: "d_round (v - 1) = Fin r1"
    and r1l: "(v - 1) * (1 - eps) \<le> r1" and r1u: "r1 \<le> (v - 1) * (1 + eps)" by blast
  have "(1 / 2 ^ 52) * (1 / 2) \<le> (v - 1) * (1 - eps)"
    using v0 c0 by (intro mult_mono) simp_all
  then have r1_lo: "1 / 2 ^ 53 \<le> r1" using r1l by simp
  have "(v - 1) * (1 + eps) \<le> 1 * 2" using v0 c0 by (intro mult_mono) simp_all
  then have r1_hi: "r1 \<le> 2" using r1u by simp
  have "1 * (1 / 2 ^ 53) \<le> real n * r1" using rn r1_lo by (intro mult_mono) simp_all
  then have nr_lo: "1 / 2 ^ 53 \<le> real n * r1" by simp
  have lo2: "pow2 (- 1022) \<le> real n * r1"
  proof -
    have "pow2 (- 1022) \<le> 1 / 2 ^ 53" by (simp add: pow2_def)
    then show ?thesis using nr_lo by linarith
  qed
  have "real n * r1 \<le> 2 ^ 32 * 2" using rn r1_hi r1_lo by (intro mult_mono) simp_all
  also have "\<dots> \<le> (2 ^ 1000 :: real)" by simp
  finally have hi2: "real n * r1 \<le> 2 ^ 1000" .
  from d_round_Fin [OF lo2 hi2] obtain r2 where r2: "d_round (real n * r1) = Fin r2"
    and r2l: "real n * r1 * (1 - eps) \<le> r2" and r2u: "r2 \<le> real n * r1 * (1 + eps)" by blast
  have "real n * ((v - 1) * (1 - eps)) * (1 - eps) \<le> real n * r1 * (1 - eps)"
    using r1l rn c0 by (intro mult_right_mono mult_left_mono) simp_all
  then have l: "real n * (v - 1) * (1 - eps) ^ 2 \<le> r2"
    using r2l by (simp add: power2_eq_square algebra_simps)
  have "real n * r1 * (1 + eps) \<le> real n * ((v - 1) * (1 + eps)) * (1 + eps)"
    using r1u rn c0 by (intro mult_right_mono mult_left_mono) simp_all
  then have u: "r2 \<le> real n * (v - 1) * (1 + eps) ^ 2"
    using r2u by (simp add: power2_eq_square algebra_simps)
  have "fadd (Fin v) (Fin (- 1)) = Fin r1" using r1 by simp
  then have "fmul (Fin (real n)) (fadd (Fin v) (Fin (- 1))) = Fin r2" using r2 by simp
  then show ?thesis using l u by blast
qed

lemma util_sum_le:
  assumes v: "valid_tasks (unat N) period wcet"
    and hyp: "utilization (unat N) period wcet * (1 + eps) ^ (unat N + 1) \<le> 1"
  shows "\<exists>b. util_sum N period wcet 0 (Fin 0) = Inr (Fin b) \<and>
        b \<le> utilization (unat N) period wcet * (1 + eps) ^ (unat N + 1)"
proof -
  have "0 \<le> utilization 0 period wcet * (1 + eps) ^ (0 + 1)" by (simp add: utilization_def)
  from util_sum_upper [OF v hyp _ _ this] show ?thesis by auto
qed

lemma util_sum_ge:
  assumes v: "valid_tasks (unat N) period wcet"
  shows "\<exists>s'. util_sum N period wcet 0 (Fin 0) = Inr s' \<and>
      (s' = PInf \<or> (\<exists>b. s' = Fin b \<and> utilization (unat N) period wcet * (1 - eps) ^ (unat N + 1) \<le> b))"
proof -
  have "Fin 0 = PInf \<or> (\<exists>a. Fin 0 = Fin a \<and> 0 \<le> a \<and>
      utilization 0 period wcet * (1 - eps) ^ (0 + 1) \<le> a)"
    by (simp add: utilization_def)
  from util_sum_lower [OF v _ this] show ?thesis by auto
qed

lemma unat_lt_32: "unat (N :: u32) < 2 ^ 32"
  using unsigned_less [of N, where 'a = nat] by simp

lemma rm_True:
  assumes v: "valid_tasks (unat N) period wcet" and n1: "1 \<le> unat N"
    and p: "pow (Fin 2) (nat_fdiv 1 (unat N)) = Fin v" and vb: "1 + 1 / 2 ^ 52 \<le> v" "v \<le> 2"
    and h1: "utilization (unat N) period wcet * (1 + eps) ^ (unat N + 1) \<le> 1"
    and h2: "utilization (unat N) period wcet * (1 + eps) ^ (unat N + 1)
        \<le> real (unat N) * (v - 1) * (1 - eps) ^ 2"
  shows "rate_monotonic_least_upper_bound pow N period wcet deadline = Inr True"
proof -
  from util_sum_le [OF v h1] obtain b where
    s: "util_sum N period wcet 0 (Fin 0) = Inr (Fin b)"
    and b: "b \<le> utilization (unat N) period wcet * (1 + eps) ^ (unat N + 1)" by blast
  from lub_value [OF n1 unat_lt_32 vb] obtain r where
    r: "fmul (Fin (real (unat N))) (fadd (Fin v) (Fin (- 1))) = Fin r"
    and rl: "real (unat N) * (v - 1) * (1 - eps) ^ 2 \<le> r" by blast
  have "b \<le> r" using b h2 rl by linarith
  then show ?thesis
    unfolding rate_monotonic_least_upper_bound_def s p using r by (simp add: Let_def)
qed

lemma rm_False:
  assumes v: "valid_tasks (unat N) period wcet" and n1: "1 \<le> unat N"
    and p: "pow (Fin 2) (nat_fdiv 1 (unat N)) = Fin v" and vb: "1 + 1 / 2 ^ 52 \<le> v" "v \<le> 2"
    and h: "real (unat N) * (v - 1) * (1 + eps) ^ 2
        < utilization (unat N) period wcet * (1 - eps) ^ (unat N + 1)"
  shows "rate_monotonic_least_upper_bound pow N period wcet deadline = Inr False"
proof -
  from util_sum_ge [OF v] obtain s' where
    s: "util_sum N period wcet 0 (Fin 0) = Inr s'"
    and c: "s' = PInf \<or> (\<exists>b. s' = Fin b \<and>
        utilization (unat N) period wcet * (1 - eps) ^ (unat N + 1) \<le> b)" by blast
  from lub_value [OF n1 unat_lt_32 vb] obtain r where
    r: "fmul (Fin (real (unat N))) (fadd (Fin v) (Fin (- 1))) = Fin r"
    and ru: "r \<le> real (unat N) * (v - 1) * (1 + eps) ^ 2" by blast
  from c have "\<not> fle s' (Fin r)"
  proof
    assume "s' = PInf"
    then show ?thesis by simp
  next
    assume "\<exists>b. s' = Fin b \<and> utilization (unat N) period wcet * (1 - eps) ^ (unat N + 1) \<le> b"
    then obtain b where "s' = Fin b"
      and "utilization (unat N) period wcet * (1 - eps) ^ (unat N + 1) \<le> b" by blast
    then show ?thesis using ru h by simp
  qed
  then show ?thesis
    unfolding rate_monotonic_least_upper_bound_def s p using r by (simp add: Let_def)
qed

text \<open>
  One task: the quotient of two different naturals below \<open>2 ^ 32\<close> is at least \<open>2\<^sup>-\<^sup>3\<^sup>2\<close>
  away from 1, more than the rounding can bridge, and the quotient of equal naturals is
  exactly 1.
\<close>

lemma ratio_lt_1:
  assumes "a < b" "b < 2 ^ 32"
  shows "ratio a b \<le> 1 - 1 / 2 ^ 32"
proof -
  have "Suc a \<le> b" using assms(1) by simp
  then have "real (Suc a) \<le> real b" by (rule of_nat_mono)
  then have 1: "real a + 1 \<le> real b" by simp
  have 2: "real b \<le> 2 ^ 32" using assms(2) by (simp flip: of_nat_le_iff)
  have "0 < real b" using 1 by linarith
  then show ?thesis using 1 2 unfolding ratio_def by (simp add: field_simps)
qed

lemma ratio_gt_1:
  assumes "b < a" "0 < b" "b < 2 ^ 32"
  shows "1 + 1 / 2 ^ 32 \<le> ratio a b"
proof -
  have "Suc b \<le> a" using assms(1) by simp
  then have "real (Suc b) \<le> real a" by (rule of_nat_mono)
  then have 1: "real b + 1 \<le> real a" by simp
  have 2: "real b \<le> 2 ^ 32" using assms(3) by (simp flip: of_nat_le_iff)
  have "0 < real b" using assms(2) by simp
  then show ?thesis using 1 2 unfolding ratio_def by (simp add: field_simps)
qed

lemma ratio_self: "0 < a \<Longrightarrow> ratio a a = 1"
  by (simp add: ratio_def)

lemma nat_fdiv_self: "0 < a \<Longrightarrow> nat_fdiv a a = Fin 1"
  by (simp add: fl_eval)

lemma utilization_1: "utilization (Suc 0) period wcet = ratio (unat (wcet ! 0)) (unat (period ! 0))"
  by (simp add: utilization_def)

lemma rm_single:
  assumes p: "pow (Fin 2) (Fin 1) = Fin 2" and v: "valid_tasks (Suc 0) period wcet"
  shows "rate_monotonic_least_upper_bound pow 1 period wcet deadline =
    Inr (utilization (Suc 0) period wcet \<le> 1)"
proof -
  let ?w = "unat (wcet ! 0)" and ?p = "unat (period ! 0)"
  note nth = valid_tasks_nth [OF v order_refl]
  have plt: "?p < 2 ^ 32" by (rule unat_lt_32)
  have q: "nat_fdiv 1 (unat (1 :: u32)) = Fin 1" by (simp add: fl_eval)
  have p': "pow (Fin 2) (nat_fdiv 1 (unat (1 :: u32))) = Fin 2" unfolding q by (rule p)
  have v': "valid_tasks (unat (1 :: u32)) period wcet" using v by simp
  have n1: "unat (1 :: u32) = Suc 0" by simp
  have two: "Suc 0 + 1 = (2 :: nat)" by simp
  have e: "(1 - 1 / 2 ^ 32) * (1 + eps) ^ 2 \<le> (1 - eps) ^ 2" "(1 - eps) ^ 2 \<le> (1 :: real)"
    "(1 + eps) ^ 2 < (1 + 1 / 2 ^ 32) * (1 - eps) ^ 2" "0 \<le> (1 + eps) ^ 2" "0 \<le> (1 - eps) ^ 2"
    by (simp_all add: eps_def power2_eq_square)
  consider "?w < ?p" | "?w = ?p" | "?p < ?w" by linarith
  then show ?thesis
  proof cases
    case 1
    have u: "utilization (Suc 0) period wcet \<le> 1 - 1 / 2 ^ 32"
      unfolding utilization_1 by (rule ratio_lt_1 [OF 1 plt])
    have "utilization (Suc 0) period wcet * (1 + eps) ^ 2 \<le> (1 - 1 / 2 ^ 32) * (1 + eps) ^ 2"
      using u e(4) by (rule mult_right_mono)
    then have h: "utilization (Suc 0) period wcet * (1 + eps) ^ 2 \<le> (1 - eps) ^ 2"
      using e(1) by linarith
    have "rate_monotonic_least_upper_bound pow 1 period wcet deadline = Inr True"
    proof (rule rm_True [where N = 1 and v = 2])
      show "valid_tasks (unat (1 :: u32)) period wcet" by (rule v')
      show "1 \<le> unat (1 :: u32)" by simp
      show "pow (Fin 2) (nat_fdiv 1 (unat (1 :: u32))) = Fin 2" by (rule p')
      show "1 + 1 / 2 ^ 52 \<le> (2 :: real)" by simp
      show "(2 :: real) \<le> 2" by simp
      show "utilization (unat (1 :: u32)) period wcet * (1 + eps) ^ (unat (1 :: u32) + 1) \<le> 1"
        unfolding n1 two using h e(2) by linarith
      show "utilization (unat (1 :: u32)) period wcet * (1 + eps) ^ (unat (1 :: u32) + 1)
          \<le> real (unat (1 :: u32)) * (2 - 1) * (1 - eps) ^ 2"
        unfolding n1 two using h by simp
    qed
    then show ?thesis using u by simp
  next
    case 2
    have r: "ratio ?w ?p = 1" unfolding 2 using nth by (intro ratio_self) simp
    have d1: "d_round 1 = Fin 1" by (simp add: fl_eval)
    have "nat_fdiv ?w ?p = Fin 1" unfolding 2 using nth by (intro nat_fdiv_self) simp
    then have "util_sum 1 period wcet 0 (Fin 0) = Inr (Fin 1)"
      using nth d1 by (simp add: util_sum.simps rd_def)
    then show ?thesis
      unfolding rate_monotonic_least_upper_bound_def q p
      using d1 by (simp add: Let_def utilization_1 r)
  next
    case 3
    have u: "1 + 1 / 2 ^ 32 \<le> utilization (Suc 0) period wcet"
      unfolding utilization_1 using 3 nth plt by (intro ratio_gt_1) simp_all
    have "(1 + 1 / 2 ^ 32) * (1 - eps) ^ 2 \<le> utilization (Suc 0) period wcet * (1 - eps) ^ 2"
      using u e(5) by (rule mult_right_mono)
    then have h: "(1 + eps) ^ 2 < utilization (Suc 0) period wcet * (1 - eps) ^ 2"
      using e(3) by linarith
    have "rate_monotonic_least_upper_bound pow 1 period wcet deadline = Inr False"
    proof (rule rm_False [where N = 1 and v = 2])
      show "valid_tasks (unat (1 :: u32)) period wcet" by (rule v')
      show "1 \<le> unat (1 :: u32)" by simp
      show "pow (Fin 2) (nat_fdiv 1 (unat (1 :: u32))) = Fin 2" by (rule p')
      show "1 + 1 / 2 ^ 52 \<le> (2 :: real)" by simp
      show "(2 :: real) \<le> 2" by simp
      show "real (unat (1 :: u32)) * (2 - 1) * (1 + eps) ^ 2
          < utilization (unat (1 :: u32)) period wcet * (1 - eps) ^ (unat (1 :: u32) + 1)"
        unfolding n1 two using h by simp
    qed
    then show ?thesis using u by simp
  qed
qed

lemma lub_lower:
  assumes "\<bar>v - 2 powr (1 / real n)\<bar> \<le> \<delta>" and c: "0 \<le> c"
  shows "(lub_exact n - real n * \<delta>) * c \<le> real n * (v - 1) * c"
proof -
  have "2 powr (1 / real n) - \<delta> \<le> v" using assms(1) by linarith
  then have "real n * (2 powr (1 / real n) - \<delta> - 1) \<le> real n * (v - 1)"
    by (intro mult_left_mono) simp_all
  then have "lub_exact n - real n * \<delta> \<le> real n * (v - 1)"
    by (simp add: lub_exact_def algebra_simps)
  then show ?thesis using c by (rule mult_right_mono)
qed

lemma lub_upper:
  assumes "\<bar>v - 2 powr (1 / real n)\<bar> \<le> \<delta>" and c: "0 \<le> c"
  shows "real n * (v - 1) * c \<le> (lub_exact n + real n * \<delta>) * c"
proof -
  have "v \<le> 2 powr (1 / real n) + \<delta>" using assms(1) by linarith
  then have "real n * (v - 1) \<le> real n * (2 powr (1 / real n) + \<delta> - 1)"
    by (intro mult_left_mono) simp_all
  then have "real n * (v - 1) \<le> lub_exact n + real n * \<delta>"
    by (simp add: lub_exact_def algebra_simps)
  then show ?thesis using c by (rule mult_right_mono)
qed

text \<open>
  Claim C4, as the code has it. For one task the bound is 1 and, with a \<^verbatim>\<open>pow\<close> that returns
  2 for \<^verbatim>\<open>pow(2.0, 1.0)\<close>, \<open>rate_monotonic_least_upper_bound\<close> returns TRUE if and only if
  the utilization is at most 1. For \<open>N\<close> tasks, \<open>1 \<le> N < 2 ^ 31\<close>, with strictly positive
  periods and execution times, the function compares the sum computed in \<^verbatim>\<open>double\<close> with
  the bound computed in \<^verbatim>\<open>double\<close> from the library's \<^verbatim>\<open>pow\<close>. When \<^verbatim>\<open>pow\<close> returns a
  value \<open>v\<close> with \<open>1 < v \<le> 2\<close> (a binary64 number above 1 is at least \<open>1 + 2\<^sup>-\<^sup>5\<^sup>2\<close>) that is
  within \<open>\<delta>\<close> of \<open>2\<^sup>1\<^sup>/\<^sup>N\<close>, the verdict is TRUE when
  \<open>U * (1 + 2\<^sup>-\<^sup>5\<^sup>3) ^ (N + 1)\<close> is at most 1 and at most
  \<open>(N * (2\<^sup>1\<^sup>/\<^sup>N - 1) - N * \<delta>) * (1 - 2\<^sup>-\<^sup>5\<^sup>3)\<^sup>2\<close>, and FALSE when
  \<open>U * (1 - 2\<^sup>-\<^sup>5\<^sup>3) ^ (N + 1)\<close> exceeds \<open>(N * (2\<^sup>1\<^sup>/\<^sup>N - 1) + N * \<delta>) * (1 + 2\<^sup>-\<^sup>5\<^sup>3)\<^sup>2\<close>, where
  \<open>U\<close> is the exact total utilization. For \<open>U\<close> within that margin of the bound the verdict
  is that of the rounded computation.
\<close>

theorem rate_monotonic_utilization_bound:
  "lub_exact 1 = 1
   \<and> (valid_tasks 1 period wcet \<and> pow (Fin 2) (Fin 1) = Fin 2 \<longrightarrow>
        rate_monotonic_least_upper_bound pow 1 period wcet deadline =
          Inr (utilization 1 period wcet \<le> lub_exact 1))
   \<and> (valid_tasks (unat numServices) period wcet \<and> 1 \<le> unat numServices \<and>
       pow (Fin 2) (nat_fdiv 1 (unat numServices)) = Fin v \<and> 1 + 1 / 2 ^ 52 \<le> v \<and> v \<le> 2 \<and>
       \<bar>v - 2 powr (1 / real (unat numServices))\<bar> \<le> \<delta> \<longrightarrow>
        (utilization (unat numServices) period wcet * (1 + eps) ^ (unat numServices + 1) \<le> 1 \<and>
         utilization (unat numServices) period wcet * (1 + eps) ^ (unat numServices + 1)
           \<le> (lub_exact (unat numServices) - real (unat numServices) * \<delta>) * (1 - eps) ^ 2 \<longrightarrow>
           rate_monotonic_least_upper_bound pow numServices period wcet deadline = Inr True) \<and>
        ((lub_exact (unat numServices) + real (unat numServices) * \<delta>) * (1 + eps) ^ 2
           < utilization (unat numServices) period wcet * (1 - eps) ^ (unat numServices + 1) \<longrightarrow>
           rate_monotonic_least_upper_bound pow numServices period wcet deadline = Inr False))"
proof (intro conjI impI)
  show "lub_exact 1 = 1" using lub_exact_1 by simp
next
  assume "valid_tasks 1 period wcet \<and> pow (Fin 2) (Fin 1) = Fin 2"
  then show "rate_monotonic_least_upper_bound pow 1 period wcet deadline =
      Inr (utilization 1 period wcet \<le> lub_exact 1)"
    using rm_single [of pow period wcet deadline] by (simp add: lub_exact_1)
next
  let ?n = "unat numServices"
  let ?U = "utilization ?n period wcet"
  assume a: "valid_tasks ?n period wcet \<and> 1 \<le> ?n \<and>
       pow (Fin 2) (nat_fdiv 1 ?n) = Fin v \<and> 1 + 1 / 2 ^ 52 \<le> v \<and> v \<le> 2 \<and>
       \<bar>v - 2 powr (1 / real ?n)\<bar> \<le> \<delta>"
  assume h: "?U * (1 + eps) ^ (?n + 1) \<le> 1 \<and>
      ?U * (1 + eps) ^ (?n + 1) \<le> (lub_exact ?n - real ?n * \<delta>) * (1 - eps) ^ 2"
  have "(lub_exact ?n - real ?n * \<delta>) * (1 - eps) ^ 2 \<le> real ?n * (v - 1) * (1 - eps) ^ 2"
    using a by (intro lub_lower) simp_all
  then have "?U * (1 + eps) ^ (?n + 1) \<le> real ?n * (v - 1) * (1 - eps) ^ 2"
    using h by linarith
  then show "rate_monotonic_least_upper_bound pow numServices period wcet deadline = Inr True"
    using a h by (intro rm_True [where v = v]) simp_all
next
  let ?n = "unat numServices"
  let ?U = "utilization ?n period wcet"
  assume a: "valid_tasks ?n period wcet \<and> 1 \<le> ?n \<and>
       pow (Fin 2) (nat_fdiv 1 ?n) = Fin v \<and> 1 + 1 / 2 ^ 52 \<le> v \<and> v \<le> 2 \<and>
       \<bar>v - 2 powr (1 / real ?n)\<bar> \<le> \<delta>"
  assume h: "(lub_exact ?n + real ?n * \<delta>) * (1 + eps) ^ 2 < ?U * (1 - eps) ^ (?n + 1)"
  have "real ?n * (v - 1) * (1 + eps) ^ 2 \<le> (lub_exact ?n + real ?n * \<delta>) * (1 + eps) ^ 2"
    using a by (intro lub_upper) simp_all
  then have "real ?n * (v - 1) * (1 + eps) ^ 2 < ?U * (1 - eps) ^ (?n + 1)"
    using h by linarith
  then show "rate_monotonic_least_upper_bound pow numServices period wcet deadline = Inr False"
    using a by (intro rm_False [where v = v]) simp_all
qed

text \<open>
  For two tasks the bound is \<open>2 * (sqrt 2 - 1)\<close>, and \<open>6369051672525773 / 2\<^sup>5\<^sup>2\<close> is the binary64
  number nearest to \<open>sqrt 2\<close>.
\<close>

lemma sqrt2_bounds: "7 / 5 \<le> sqrt 2" "sqrt 2 \<le> 17 / 12"
proof -
  have "(7 / 5 :: real) ^ 2 \<le> 2" by (simp add: power2_eq_square)
  then show "7 / 5 \<le> sqrt 2" by (rule real_le_rsqrt)
  have "(2 :: real) \<le> (17 / 12) ^ 2" by (simp add: power2_eq_square)
  then show "sqrt 2 \<le> 17 / 12" by (intro real_le_lsqrt) simp_all
qed

lemma sqrt2_double: "\<bar>6369051672525773 / 4503599627370496 - sqrt 2\<bar> \<le> 1 / 2 ^ 53"
proof -
  have "(6369051672525773 / 4503599627370496 - 1 / 2 ^ 53 :: real) ^ 2 \<le> 2"
    by (simp add: power2_eq_square)
  then have 1: "6369051672525773 / 4503599627370496 - 1 / 2 ^ 53 \<le> sqrt 2"
    by (rule real_le_rsqrt)
  have "(2 :: real) \<le> (6369051672525773 / 4503599627370496 + 1 / 2 ^ 53) ^ 2"
    by (simp add: power2_eq_square)
  then have 2: "sqrt 2 \<le> 6369051672525773 / 4503599627370496 + 1 / 2 ^ 53"
    by (intro real_le_lsqrt) simp_all
  from 1 2 show ?thesis by linarith
qed

lemma lub_exact_2: "lub_exact 2 = 2 * (sqrt 2 - 1)"
  by (simp add: lub_exact_def powr_half_sqrt)

lemma lub_exact_2_bounds: "4 / 5 \<le> lub_exact 2" "lub_exact 2 \<le> 5 / 6"
  using sqrt2_bounds by (simp_all add: lub_exact_2)

text \<open>
  The theorem at work: one task \<open>(T, C) = (2, 1)\<close> with a \<^verbatim>\<open>pow\<close> that returns 2, and two
  tasks with a \<^verbatim>\<open>pow\<close> that returns the binary64 number nearest to \<open>sqrt 2\<close>:
  \<open>(2, 1), (4, 1)\<close> have the utilization 0.75, below the bound 0.828..., and
  \<open>(2, 1), (4, 2)\<close> the utilization 1, above it.
\<close>

theorem rate_monotonic_utilization_bound_witness:
  "rate_monotonic_least_upper_bound (\<lambda>x y. Fin 2) 1 [2] [1] [2] = Inr True
   \<and> rate_monotonic_least_upper_bound (\<lambda>x y. Fin (6369051672525773 / 4503599627370496))
        2 [2, 4] [1, 1] [2, 4] = Inr True
   \<and> rate_monotonic_least_upper_bound (\<lambda>x y. Fin (6369051672525773 / 4503599627370496))
        2 [2, 4] [1, 2] [2, 4] = Inr False"
proof (intro conjI)
  have v: "valid_tasks 1 [2] [1]" by (simp add: valid_tasks_1)
  have u: "utilization 1 [2] [1] \<le> lub_exact 1"
    using lub_exact_1 by (simp add: utilization_def ratio_def)
  show "rate_monotonic_least_upper_bound (\<lambda>x y. Fin 2) 1 [2] [1] [2] = Inr True"
    using rate_monotonic_utilization_bound [where period = "[2]" and wcet = "[1]"
        and pow = "\<lambda>x y. Fin 2" and deadline = "[2]"] v u
    by simp
next
  let ?v = "6369051672525773 / 4503599627370496 :: real"
  have n: "unat (2 :: u32) = 2" by simp
  have v: "valid_tasks (unat (2 :: u32)) [2, 4] [1, 1]"
    unfolding n numeral_2_eq_2 by (simp add: valid_tasks_Suc valid_tasks_0)
  have d: "\<bar>?v - 2 powr (1 / real (unat (2 :: u32)))\<bar> \<le> 1 / 2 ^ 53"
    unfolding n using sqrt2_double by (simp add: powr_half_sqrt)
  have U: "utilization 2 [2, 4] [1, 1] = 3 / 4"
    by (simp add: utilization_def ratio_def sum_upt_numeral)
  have c: "(0 :: real) \<le> (1 - eps) ^ 2" by simp
  have "(4 / 5 - 2 * (1 / 2 ^ 53)) * (1 - eps) ^ 2 \<le> (lub_exact 2 - 2 * (1 / 2 ^ 53)) * (1 - eps) ^ 2"
    using lub_exact_2_bounds(1) c by (intro mult_right_mono) simp_all
  moreover have "3 / 4 * (1 + eps) ^ 3 \<le> (4 / 5 - 2 * (1 / 2 ^ 53)) * (1 - eps) ^ 2"
    by (simp add: eps_def power2_eq_square power3_eq_cube)
  ultimately have "3 / 4 * (1 + eps) ^ 3 \<le> (lub_exact 2 - 2 * (1 / 2 ^ 53)) * (1 - eps) ^ 2"
    by linarith
  then have h2: "utilization (unat (2 :: u32)) [2, 4] [1, 1] * (1 + eps) ^ (unat (2 :: u32) + 1)
      \<le> (lub_exact (unat (2 :: u32)) - real (unat (2 :: u32)) * (1 / 2 ^ 53)) * (1 - eps) ^ 2"
    unfolding n U by simp
  have "3 / 4 * (1 + eps) ^ 3 \<le> 1" by (simp add: eps_def power3_eq_cube)
  then have h1: "utilization (unat (2 :: u32)) [2, 4] [1, 1] * (1 + eps) ^ (unat (2 :: u32) + 1) \<le> 1"
    unfolding n U by simp
  show "rate_monotonic_least_upper_bound (\<lambda>x y. Fin ?v) 2 [2, 4] [1, 1] [2, 4] = Inr True"
    using rate_monotonic_utilization_bound [where numServices = 2 and period = "[2, 4]"
        and wcet = "[1, 1]" and pow = "\<lambda>x y. Fin ?v" and v = ?v and \<delta> = "1 / 2 ^ 53"
        and deadline = "[2, 4]"] v d h1 h2
    by simp
next
  let ?v = "6369051672525773 / 4503599627370496 :: real"
  have n: "unat (2 :: u32) = 2" by simp
  have v: "valid_tasks (unat (2 :: u32)) [2, 4] [1, 2]"
    unfolding n numeral_2_eq_2 by (simp add: valid_tasks_Suc valid_tasks_0)
  have d: "\<bar>?v - 2 powr (1 / real (unat (2 :: u32)))\<bar> \<le> 1 / 2 ^ 53"
    unfolding n using sqrt2_double by (simp add: powr_half_sqrt)
  have U: "utilization 2 [2, 4] [1, 2] = 1"
    by (simp add: utilization_def ratio_def sum_upt_numeral)
  have c: "(0 :: real) \<le> (1 + eps) ^ 2" by simp
  have "(lub_exact 2 + 2 * (1 / 2 ^ 53)) * (1 + eps) ^ 2 \<le> (5 / 6 + 2 * (1 / 2 ^ 53)) * (1 + eps) ^ 2"
    using lub_exact_2_bounds(2) c by (intro mult_right_mono) simp_all
  moreover have "(5 / 6 + 2 * (1 / 2 ^ 53)) * (1 + eps) ^ 2 < 1 * (1 - eps) ^ 3"
    by (simp add: eps_def power2_eq_square power3_eq_cube)
  ultimately have "(lub_exact 2 + 2 * (1 / 2 ^ 53)) * (1 + eps) ^ 2 < 1 * (1 - eps) ^ 3"
    by linarith
  then have h: "(lub_exact (unat (2 :: u32)) + real (unat (2 :: u32)) * (1 / 2 ^ 53)) * (1 + eps) ^ 2
      < utilization (unat (2 :: u32)) [2, 4] [1, 2] * (1 - eps) ^ (unat (2 :: u32) + 1)"
    unfolding n U by simp
  show "rate_monotonic_least_upper_bound (\<lambda>x y. Fin ?v) 2 [2, 4] [1, 2] [2, 4] = Inr False"
    using rate_monotonic_utilization_bound [where numServices = 2 and period = "[2, 4]"
        and wcet = "[1, 2]" and pow = "\<lambda>x y. Fin ?v" and v = ?v and \<delta> = "1 / 2 ^ 53"
        and deadline = "[2, 4]"] v d h
    by simp
qed

text \<open>
  Claim C4 as stated compares the exact utilization with the exact bound. The periods
  \<open>2490923653, 3625090238\<close> with the execution times \<open>656811749, 2047252012\<close> have a
  utilization above \<open>2 * (sqrt 2 - 1)\<close>, by less than \<open>2 * 10\<^sup>-\<^sup>1\<^sup>6\<close>; with a \<^verbatim>\<open>pow\<close> that
  returns the binary64 number nearest to \<open>sqrt 2\<close> the computed bound and the computed sum are
  both \<open>1865452045155277 / 2\<^sup>5\<^sup>1\<close>, and the function returns TRUE.
\<close>

theorem rate_monotonic_bound_rounding:
  "valid_tasks 2 [2490923653, 3625090238] [656811749, 2047252012]
   \<and> lub_exact 2 < utilization 2 [2490923653, 3625090238] [656811749, 2047252012]
   \<and> \<bar>6369051672525773 / 4503599627370496 - (2 :: real) powr (1 / 2)\<bar> \<le> 1 / 2 ^ 53
   \<and> rate_monotonic_least_upper_bound (\<lambda>x y. Fin (6369051672525773 / 4503599627370496))
        2 [2490923653, 3625090238] [656811749, 2047252012] [2490923653, 3625090238] = Inr True"
proof (intro conjI)
  show "valid_tasks 2 [2490923653, 3625090238] [656811749, 2047252012]"
    unfolding numeral_2_eq_2 by (simp add: valid_tasks_Suc valid_tasks_0)
  have U: "utilization 2 [2490923653, 3625090238] [656811749, 2047252012]
      = 656811749 / 2490923653 + 2047252012 / 3625090238"
    by (simp add: utilization_def ratio_def sum_upt_numeral)
  have "(2 :: real) < ((656811749 / 2490923653 + 2047252012 / 3625090238) / 2 + 1) ^ 2"
    by (simp add: power2_eq_square)
  then have "sqrt 2 < (656811749 / 2490923653 + 2047252012 / 3625090238) / 2 + 1"
    by (intro real_less_lsqrt) simp_all
  then show "lub_exact 2 < utilization 2 [2490923653, 3625090238] [656811749, 2047252012]"
    unfolding U lub_exact_2 by simp
  show "\<bar>6369051672525773 / 4503599627370496 - (2 :: real) powr (1 / 2)\<bar> \<le> 1 / 2 ^ 53"
    using sqrt2_double by (simp add: powr_half_sqrt)
  show "rate_monotonic_least_upper_bound (\<lambda>x y. Fin (6369051672525773 / 4503599627370496))
        2 [2490923653, 3625090238] [656811749, 2047252012] [2490923653, 3625090238] = Inr True"
    by (simp add: rate_monotonic_least_upper_bound_def util_eval)
qed

subsection \<open>The example task set\<close>

text \<open>
  \<^verbatim>\<open>main\<close> runs the tests on \<^verbatim>\<open>ex2_period\<close> \<open>2, 5, 7, 13\<close> and \<^verbatim>\<open>ex2_wcet\<close> \<open>1, 1, 1, 2\<close>, with
  \<^verbatim>\<open>ex2_period\<close> as the deadlines.
\<close>

lemmas ct_code_eval = completion_time_feasibility_def ct_tasks.simps ct_seed.simps ct_iter.simps
  ct_next_def ct_sum.simps rd_def add_conv_def ceil_div_def

lemma ex2_completion:
  "completion_time_feasibility 4 [2, 5, 7, 13] [1, 1, 1, 2] [2, 5, 7, 13] = Inr False"
  by (simp add: ct_code_eval)

lemma ex2_scheduling_point:
  "scheduling_point_feasibility 4 [2, 5, 7, 13] [1, 1, 1, 2] [2, 5, 7, 13] = Inr False"
  by (simp add: sp_code_eval)

lemma ex2_util_sum:
  "util_sum 4 [2, 5, 7, 13] [1, 1, 1, 2] 0 (Fin 0) = Inr (Fin (8977505191263823 / 9007199254740992))"
  by (simp add: util_eval)

lemma ex2_edf: "edf_feasibility 4 [2, 5, 7, 13] [1, 1, 1, 2] = Inr True"
  by (simp add: edf_feasibility_def ex2_util_sum)

lemma ex2_fixed_point: "rt_fixed_point [2, 5, 7, 13] [1, 1, 1, 2] 3 14"
  by (rule rt_fixed_pointI [where k = 5])
     (simp_all add: rt_seq_numeral rt_seed_def rt_step_def ceil_q_def sum_upt_numeral)

text \<open>
  The bound of the utilization test for four tasks, \<^verbatim>\<open>4 * (pow(2.0, 0.25) - 1.0)\<close>, is at most
  \<open>289 / 320\<close> whenever \<^verbatim>\<open>pow\<close> returns a value between 1.1 and 1.2 (\<open>2\<^sup>1\<^sup>/\<^sup>4\<close> is 1.189...).
\<close>

lemma ex2_quotient: "nat_fdiv 1 (unat (4 :: u32)) = Fin (1 / 4)"
  by (simp add: fl_eval)

lemma ex2_bound:
  assumes v: "11 / 10 \<le> v" "v \<le> 6 / 5"
  shows "\<exists>r. fmul (Fin 4) (fadd (Fin v) (Fin (- 1))) = Fin r \<and> r \<le> 289 / 320"
proof -
  have lo1: "pow2 (- 1022) \<le> v - 1"
  proof -
    have "pow2 (- 1022) \<le> 1 / 10" by (simp add: pow2_def)
    then show ?thesis using v by linarith
  qed
  have hi1: "v - 1 \<le> 2 ^ 1000"
  proof -
    have "v - 1 \<le> 1" using v by simp
    also have "(1 :: real) \<le> 2 ^ 1000" by simp
    finally show ?thesis .
  qed
  from d_round_Fin [OF lo1 hi1] obtain r1 where r1: "d_round (v - 1) = Fin r1"
    and r1l: "(v - 1) * (1 - eps) \<le> r1" and r1u: "r1 \<le> (v - 1) * (1 + eps)" by blast
  have e1: "1 + eps \<le> 17 / 16" and e0: "15 / 16 \<le> 1 - eps" by (simp_all add: eps_def)
  have "(v - 1) * (1 + eps) \<le> (1 / 5) * (17 / 16)"
    using v e1 eps_bounds by (intro mult_mono) simp_all
  then have r1_hi: "r1 \<le> 17 / 80" using r1u by simp
  have "(1 / 10) * (15 / 16) \<le> (v - 1) * (1 - eps)"
    using v e0 eps_bounds by (intro mult_mono) simp_all
  then have r1_lo: "3 / 32 \<le> r1" using r1l by simp
  have lo2: "pow2 (- 1022) \<le> 4 * r1"
  proof -
    have "pow2 (- 1022) \<le> 3 / 8" by (simp add: pow2_def)
    then show ?thesis using r1_lo by linarith
  qed
  have hi2: "4 * r1 \<le> 2 ^ 1000"
  proof -
    have "4 * r1 \<le> 1" using r1_hi by simp
    also have "(1 :: real) \<le> 2 ^ 1000" by simp
    finally show ?thesis .
  qed
  from d_round_Fin [OF lo2 hi2] obtain r2 where r2: "d_round (4 * r1) = Fin r2"
    and r2u: "r2 \<le> 4 * r1 * (1 + eps)" by blast
  have "4 * r1 * (1 + eps) \<le> 4 * (17 / 80) * (17 / 16)"
    using r1_hi r1_lo e1 eps_bounds by (intro mult_mono) simp_all
  then have "r2 \<le> 289 / 320" using r2u by simp
  moreover have "fadd (Fin v) (Fin (- 1)) = Fin r1" using r1 by simp
  then have "fmul (Fin 4) (fadd (Fin v) (Fin (- 1))) = Fin r2" using r2 by simp
  ultimately show ?thesis by blast
qed

lemma ex2_lub:
  assumes p: "pow (Fin 2) (Fin (1 / 4)) = Fin v" and v: "11 / 10 \<le> v" "v \<le> 6 / 5"
  shows "rate_monotonic_least_upper_bound pow 4 [2, 5, 7, 13] [1, 1, 1, 2] deadline = Inr False"
proof -
  from ex2_bound [OF v] obtain r where r: "fmul (Fin 4) (fadd (Fin v) (Fin (- 1))) = Fin r"
    and le: "r \<le> 289 / 320" by blast
  have "\<not> 8977505191263823 / 9007199254740992 \<le> r" using le by simp
  then show ?thesis
    unfolding rate_monotonic_least_upper_bound_def ex2_util_sum ex2_quotient p
    using r by (simp add: Let_def)
qed

text \<open>
  Claim C7, as the code has it. On the example task set \<open>completion_time_feasibility\<close>
  returns FALSE: the iteration of the fourth task runs 5, 7, 9, 11, 13, 14 and stops at the
  fixed point 14, beyond the deadline 13. \<open>scheduling_point_feasibility\<close> returns FALSE too,
  \<open>edf_feasibility\<close> returns TRUE (the sum in \<^verbatim>\<open>double\<close> is 0.9967...), and
  \<open>rate_monotonic_least_upper_bound\<close> returns FALSE with every \<^verbatim>\<open>pow\<close> whose value for
  \<open>2\<^sup>1\<^sup>/\<^sup>4\<close> lies between 1.1 and 1.2.
\<close>

theorem example_2_verdicts:
  "completion_time_feasibility 4 [2, 5, 7, 13] [1, 1, 1, 2] [2, 5, 7, 13] = Inr False
   \<and> rt_fixed_point [2, 5, 7, 13] [1, 1, 1, 2] 3 14
   \<and> scheduling_point_feasibility 4 [2, 5, 7, 13] [1, 1, 1, 2] [2, 5, 7, 13] = Inr False
   \<and> edf_feasibility 4 [2, 5, 7, 13] [1, 1, 1, 2] = Inr True
   \<and> (pow (Fin 2) (Fin (1 / 4)) = Fin v \<and> 11 / 10 \<le> v \<and> v \<le> 6 / 5 \<longrightarrow>
        rate_monotonic_least_upper_bound pow 4 [2, 5, 7, 13] [1, 1, 1, 2] [2, 5, 7, 13] = Inr False)"
proof (intro conjI impI)
  assume "pow (Fin 2) (Fin (1 / 4)) = Fin v \<and> 11 / 10 \<le> v \<and> v \<le> 6 / 5"
  then show "rate_monotonic_least_upper_bound pow 4 [2, 5, 7, 13] [1, 1, 1, 2] [2, 5, 7, 13] = Inr False"
    by (intro ex2_lub [of pow v]) simp_all
qed (rule ex2_completion ex2_fixed_point ex2_scheduling_point ex2_edf)+

text \<open>
  The theorem at work with a \<^verbatim>\<open>pow\<close> that returns \<open>5355712719992597 / 2\<^sup>5\<^sup>2\<close>, the binary64
  number nearest to \<open>2\<^sup>1\<^sup>/\<^sup>4\<close>.
\<close>

theorem example_2_verdicts_witness:
  "rate_monotonic_least_upper_bound (\<lambda>x y. Fin (5355712719992597 / 4503599627370496))
     4 [2, 5, 7, 13] [1, 1, 1, 2] [2, 5, 7, 13] = Inr False
   \<and> completion_time_feasibility 4 [2, 5, 7, 13] [1, 1, 1, 2] [2, 5, 7, 13] = Inr False"
  using example_2_verdicts [of "\<lambda>x y. Fin (5355712719992597 / 4503599627370496)"
      "5355712719992597 / 4503599627370496"]
  by simp

text \<open>
  Claim C7 as stated has TRUE for \<open>completion_time_feasibility\<close> and for
  \<open>scheduling_point_feasibility\<close>: both return FALSE.
\<close>

theorem example_2_not_feasible:
  "completion_time_feasibility 4 [2, 5, 7, 13] [1, 1, 1, 2] [2, 5, 7, 13] = Inr False
   \<and> scheduling_point_feasibility 4 [2, 5, 7, 13] [1, 1, 1, 2] [2, 5, 7, 13] = Inr False"
  using ex2_completion ex2_scheduling_point by simp

subsection \<open>Task sets that are not valid\<close>

text \<open>
  The functions return \<^verbatim>\<open>int\<close>, \<^verbatim>\<open>TRUE\<close> or \<^verbatim>\<open>FALSE\<close>, and test nothing about their
  arguments. With one task, \<open>completion_time_feasibility\<close> never reads the period and
  \<open>scheduling_point_feasibility\<close> never reads the deadline.
\<close>

lemma ct_single:
  "completion_time_feasibility 1 [p] [w] [d] = Inr (w \<le> d)"
proof -
  have wlt: "unat w < 2 ^ 32" using unsigned_less [of w, where 'a = nat] by simp
  have seed: "ct_seed [w] 0 0 0 = Inr (unat w)"
    using wlt by (simp add: ct_seed.simps rd_def)
  have "ct_next [p] [w] 0 (unat w) = Inr (unat w)"
    by (simp add: ct_next_def ct_sum.simps rd_def)
  then have iter: "ct_iter [p] [w] 0 (unat w) = Inr (unat w)"
    by (subst ct_iter.simps) simp
  have last: "ct_tasks 1 [p] [w] [d] (Suc 0) = Inr True"
    by (subst ct_tasks.simps) simp
  have "ct_tasks 1 [p] [w] [d] 0 = Inr (w \<le> d)"
    using seed iter last
    by (subst ct_tasks.simps) (auto simp: rd_def word_le_nat_alt)
  then show ?thesis by (simp add: completion_time_feasibility_def)
qed

lemma sp_single:
  "scheduling_point_feasibility 1 [p] [w] [d] = Inr (p \<noteq> 0 \<and> w \<le> p)"
proof -
  have pts: "sp_points [p] [w] 0 0 1 = Inr (p \<noteq> 0 \<and> w \<le> p)"
  proof (cases "p = 0")
    case True
    then show ?thesis by (subst sp_points.simps) (simp add: rd_def)
  next
    case False
    then have p0: "0 < unat p" by (simp add: unat_gt_0)
    have plt: "unat p < 2 ^ 32" and wlt: "unat w < 2 ^ 32"
      using unsigned_less [of p, where 'a = nat] unsigned_less [of w, where 'a = nat] by simp_all
    have c: "ceil_div (unat p) (unat p) = 1"
      unfolding ceil_div_def using p0 by (intro div_nat_eqI) simp_all
    have last: "sp_demand [p] [w] 0 (unat p) 1 (unat w) = Inr (unat w)"
      by (subst sp_demand.simps) simp
    have d: "sp_demand [p] [w] 0 (unat p) 0 0 = Inr (unat w)"
      using p0 wlt c last by (subst sp_demand.simps) (simp add: rd_def add_conv_def)
    have two: "sp_points [p] [w] 0 0 (Suc (Suc 0)) = Inr False"
      using p0 by (subst sp_points.simps) (simp add: rd_def)
    show ?thesis
      using False p0 plt d two
      by (subst sp_points.simps) (auto simp: rd_def word_le_nat_alt)
  qed
  have "sp_search [p] [w] 0 (Suc 0) = Inr False" by (subst sp_search.simps) simp
  then have "sp_search [p] [w] 0 0 = Inr (p \<noteq> 0 \<and> w \<le> p)"
    using pts by (subst sp_search.simps) auto
  moreover have "sp_tasks 1 [p] [w] (Suc 0) rc = Inr rc" for rc
    by (subst sp_tasks.simps) simp
  ultimately have "sp_tasks 1 [p] [w] 0 True = Inr (p \<noteq> 0 \<and> w \<le> p)"
    by (subst sp_tasks.simps) auto
  then show ?thesis by (simp add: scheduling_point_feasibility_def)
qed

text \<open>
  Claim C9, as the code has it. No function validates its input and none has an error to
  return. For the empty task set (\<^verbatim>\<open>numServices\<close> 0) \<open>completion_time_feasibility\<close>,
  \<open>scheduling_point_feasibility\<close>, \<open>edf_feasibility\<close> and \<open>llf_feasibility\<close> return TRUE,
  whatever the arrays. For one task with any period \<open>p\<close>, execution time \<open>w\<close> and deadline
  \<open>d\<close>, zero or not, equal or not, \<open>completion_time_feasibility\<close> returns the verdict
  \<open>w \<le> d\<close> and \<open>scheduling_point_feasibility\<close> the verdict \<open>p \<noteq> 0 \<and> w \<le> p\<close>.
\<close>

theorem no_input_validation:
  "completion_time_feasibility 0 period wcet deadline = Inr True
   \<and> scheduling_point_feasibility 0 period wcet deadline = Inr True
   \<and> edf_feasibility 0 period wcet = Inr True
   \<and> llf_feasibility 0 period wcet = Inr True
   \<and> completion_time_feasibility 1 [p] [w] [d] = Inr (w \<le> d)
   \<and> scheduling_point_feasibility 1 [p] [w] [d] = Inr (p \<noteq> 0 \<and> w \<le> p)"
proof (intro conjI)
  show "completion_time_feasibility 0 period wcet deadline = Inr True"
    unfolding completion_time_feasibility_def by (subst ct_tasks.simps) simp
  show "scheduling_point_feasibility 0 period wcet deadline = Inr True"
    unfolding scheduling_point_feasibility_def by (subst sp_tasks.simps) simp
  have u: "util_sum 0 period wcet 0 (Fin 0) = Inr (Fin 0)"
    by (subst util_sum.simps) simp
  show "edf_feasibility 0 period wcet = Inr True" by (simp add: edf_feasibility_def u)
  show "llf_feasibility 0 period wcet = Inr True" by (simp add: llf_feasibility_def u)
qed (rule ct_single sp_single)+

text \<open>
  Claim C9 as stated has an error for every invalid task set. The empty set gets the verdict
  TRUE from three functions; the task \<open>(T, C, D) = (5, 3, 4)\<close>, whose deadline is not its
  period, gets TRUE from both exact tests; the task with period, execution time and deadline
  0 gets TRUE from \<open>completion_time_feasibility\<close>; a task with execution time 0 gets TRUE
  and a task with period 0 gets FALSE from \<open>scheduling_point_feasibility\<close>.
\<close>

theorem invalid_sets_get_verdicts:
  "completion_time_feasibility 0 [] [] [] = Inr True
   \<and> scheduling_point_feasibility 0 [] [] [] = Inr True
   \<and> edf_feasibility 0 [] [] = Inr True
   \<and> completion_time_feasibility 1 [5] [3] [4] = Inr True
   \<and> scheduling_point_feasibility 1 [5] [3] [4] = Inr True
   \<and> completion_time_feasibility 1 [0] [0] [0] = Inr True
   \<and> scheduling_point_feasibility 1 [5] [0] [5] = Inr True
   \<and> scheduling_point_feasibility 1 [0] [1] [0] = Inr False"
  by (simp add: ct_code_eval sp_code_eval edf_feasibility_def util_sum.simps)

subsection \<open>The deadline argument\<close>

text \<open>
  Claim C10. \<open>scheduling_point_feasibility\<close> and \<open>rate_monotonic_least_upper_bound\<close> return
  the same result whatever array is passed as \<^verbatim>\<open>deadline\<close>: neither function reads it.
\<close>

theorem deadline_not_used:
  "scheduling_point_feasibility numServices period wcet d1 =
     scheduling_point_feasibility numServices period wcet d2
   \<and> rate_monotonic_least_upper_bound pow numServices period wcet d1 =
     rate_monotonic_least_upper_bound pow numServices period wcet d2"
  by (simp add: scheduling_point_feasibility_def rate_monotonic_least_upper_bound_def)

end
